theory Spec2Isabelle
  imports Complex_Main
begin

section \<open>Overlap matcher (src/audio\_processing/fusion.py)\<close>

text \<open>
  Times are Python floats in the source. They are modelled as rationals: the arithmetic
  of the model is exact, so the rounding of IEEE doubles (and NaN, infinities) is outside
  the model. Text is modelled as \<open>string\<close>.

  A speaker interval is the dictionary \<open>{"start", "end", "speaker"}\<close> produced by the
  diarization step.
\<close>

record speaker_interval =
  si_start :: rat
  si_end :: rat
  si_speaker :: string

text \<open>The three lines computing \<open>overlap\<close> in the body of the loop.\<close>

definition overlap :: "rat \<Rightarrow> rat \<Rightarrow> speaker_interval \<Rightarrow> rat" where
  "overlap segment_start segment_end seg =
     (let overlap_start = max segment_start (si_start seg);
          overlap_end = min segment_end (si_end seg)
      in max 0 (overlap_end - overlap_start))"

text \<open>
  The \<open>for seg in speaker_segments\<close> loop; the state is the pair
  \<open>(max_overlap, best_speaker)\<close>.
\<close>

fun find_speaker_loop ::
  "rat \<Rightarrow> rat \<Rightarrow> speaker_interval list \<Rightarrow> rat \<times> string \<Rightarrow> rat \<times> string" where
  "find_speaker_loop segment_start segment_end [] st = st"
| "find_speaker_loop segment_start segment_end (seg # segs) (max_overlap, best_speaker) =
     (if overlap segment_start segment_end seg > max_overlap
      then find_speaker_loop segment_start segment_end segs
             (overlap segment_start segment_end seg, si_speaker seg)
      else find_speaker_loop segment_start segment_end segs (max_overlap, best_speaker))"

definition find_speaker_for_segment :: "rat \<Rightarrow> rat \<Rightarrow> speaker_interval list \<Rightarrow> string" where
  "find_speaker_for_segment segment_start segment_end speaker_segments =
     (case find_speaker_loop segment_start segment_end speaker_segments (0, ''UNKNOWN'') of
        (max_overlap, best_speaker) \<Rightarrow> if max_overlap > 0 then best_speaker else ''UNKNOWN'')"

section \<open>Python helpers used by the modelled functions\<close>

text \<open>
  Exceptions are values: a function that can raise returns \<open>py_error + 'a\<close>, with
  \<open>Inl\<close> for the exception.
\<close>

datatype py_error = KeyError string | ValueError | TypeError

text \<open>
  \<open>round(x, n)\<close> of Python rounds to the nearest multiple of \<open>10^-n\<close>, a tie going
  to the even neighbour.
\<close>

definition round_half_even :: "rat \<Rightarrow> int" where
  "round_half_even x =
     (let f = \<lfloor>x\<rfloor>; d = x - of_int f
      in if d < 1 / 2 then f else if 1 / 2 < d then f + 1 else if even f then f else f + 1)"

definition py_round :: "rat \<Rightarrow> nat \<Rightarrow> rat" where
  "py_round x n = of_int (round_half_even (x * 10 ^ n)) / 10 ^ n"

text \<open>\<open>int(x)\<close> of a float: truncation towards zero.\<close>

definition py_trunc :: "rat \<Rightarrow> int" where
  "py_trunc x = (if 0 \<le> x then \<lfloor>x\<rfloor> else \<lceil>x\<rceil>)"

text \<open>
  \<open>x or d\<close> for an optional number: \<open>None\<close> and zero are falsy and give \<open>d\<close>.
\<close>

definition py_or :: "rat option \<Rightarrow> rat \<Rightarrow> rat" where
  "py_or v d = (case v of None \<Rightarrow> d | Some x \<Rightarrow> if x = 0 then d else x)"

text \<open>
  Text is modelled over the code points below 256. \<open>str.isspace\<close> holds there for the
  code points 9 to 13, 28 to 32, 133 and 160; \<open>str.strip()\<close> removes them at both ends.
\<close>

definition py_isspace :: "char \<Rightarrow> bool" where
  "py_isspace c = ((of_char c :: nat) \<in> {9, 10, 11, 12, 13, 28, 29, 30, 31, 32, 133, 160})"

definition py_strip :: "string \<Rightarrow> string" where
  "py_strip s = rev (dropWhile py_isspace (rev (dropWhile py_isspace s)))"

text \<open>\<open>sep.join(parts)\<close> and \<open>s.split(sep)\<close> for a separator of one character.\<close>

fun py_join :: "string \<Rightarrow> string list \<Rightarrow> string" where
  "py_join sep [] = []"
| "py_join sep [p] = p"
| "py_join sep (p # q # ps) = p @ sep @ py_join sep (q # ps)"

fun py_split :: "char \<Rightarrow> string \<Rightarrow> string list" where
  "py_split sep [] = [[]]"
| "py_split sep (c # cs) =
     (if c = sep then [] # py_split sep cs
      else (case py_split sep cs of [] \<Rightarrow> [[c]] | p # ps \<Rightarrow> (c # p) # ps))"

section \<open>Timestamp utilities (src/utils/helpers.py)\<close>

text \<open>
  \<open>timedelta(seconds=x)\<close> rounds \<open>x\<close> to whole microseconds (ties to even) and stores
  the result normalised as days, seconds and microseconds; its attribute \<open>seconds\<close> is
  the seconds component, between 0 and 86399. The range check of \<open>timedelta\<close> (more than
  999999999 days raises OverflowError) is outside the model.
\<close>

definition timedelta_seconds :: "rat \<Rightarrow> int" where
  "timedelta_seconds x = (round_half_even (x * 1000000) div 1000000) mod 86400"

text \<open>The format specifications \<open>:02d\<close> and \<open>:03d\<close>: decimal digits, zero-padded.\<close>

definition digit_char :: "nat \<Rightarrow> char" where
  "digit_char d = ''0123456789'' ! (d mod 10)"

function decimal :: "nat \<Rightarrow> string" where
  "decimal n = (if n < 10 then [digit_char n] else decimal (n div 10) @ [digit_char (n mod 10)])"
  by pat_completeness auto
termination
  by (relation "measure id") auto

definition format_d :: "nat \<Rightarrow> int \<Rightarrow> string" where
  "format_d width i =
     (if i < 0
      then CHR ''-'' # replicate (width - 1 - length (decimal (nat (- i)))) CHR ''0''
             @ decimal (nat (- i))
      else replicate (width - length (decimal (nat i))) CHR ''0'' @ decimal (nat i))"

definition seconds_to_timestamp :: "rat \<Rightarrow> bool \<Rightarrow> string" where
  "seconds_to_timestamp seconds0 include_ms =
     (let seconds = (if seconds0 < 0 then 0 else seconds0);
          td_seconds = timedelta_seconds seconds;
          hours = td_seconds div 3600;
          minutes = (td_seconds mod 3600) div 60;
          secs = td_seconds mod 60
      in if include_ms
         then (let milliseconds = py_trunc ((seconds - of_int \<lfloor>seconds\<rfloor>) * 1000)
               in format_d 2 hours @ '':'' @ format_d 2 minutes @ '':'' @ format_d 2 secs
                    @ ''.'' @ format_d 3 milliseconds)
         else format_d 2 hours @ '':'' @ format_d 2 minutes @ '':'' @ format_d 2 secs)"

text \<open>
  \<open>int(s)\<close> and \<open>float(s)\<close> on strings. A group of digits is
  \<open>digit (["_"] digit)*\<close>. \<open>int\<close> accepts surrounding whitespace, a sign and a group
  of digits. \<open>float\<close> is only called on \<open>"0." + ms_part\<close>: after the \<open>0.\<close> it accepts
  an optional group of digits, an optional exponent and trailing whitespace. The value
  is exact here (no rounding to a double, no overflow to infinity); the limit of
  \<open>int\<close> on the number of digits is outside the model.
\<close>

definition is_digit :: "char \<Rightarrow> bool" where
  "is_digit c = (c \<in> set ''0123456789'')"

definition digit_value :: "char \<Rightarrow> nat" where
  "digit_value c = (of_char c :: nat) - 48"

fun digit_group :: "string \<Rightarrow> bool" where
  "digit_group [] = False"
| "digit_group [c] = is_digit c"
| "digit_group (c # d # r) =
     (is_digit c \<and> (if d = CHR ''_'' then digit_group r else digit_group (d # r)))"

definition digits_value :: "string \<Rightarrow> nat" where
  "digits_value s = foldl (\<lambda>a c. 10 * a + digit_value c) 0 (filter is_digit s)"

definition py_int :: "string \<Rightarrow> int option" where
  "py_int s =
     (case py_strip s of
        [] \<Rightarrow> None
      | c # r \<Rightarrow>
          if c = CHR ''-'' then (if digit_group r then Some (- int (digits_value r)) else None)
          else if c = CHR ''+'' then (if digit_group r then Some (int (digits_value r)) else None)
          else if digit_group (c # r) then Some (int (digits_value (c # r))) else None)"

definition py_exponent :: "string \<Rightarrow> int option" where
  "py_exponent s =
     (case s of
        [] \<Rightarrow> Some 0
      | c # r \<Rightarrow>
          if c = CHR ''e'' \<or> c = CHR ''E''
          then (case r of
                  [] \<Rightarrow> None
                | sg # r' \<Rightarrow>
                    if sg = CHR ''-'' then (if digit_group r' then Some (- int (digits_value r')) else None)
                    else if sg = CHR ''+'' then (if digit_group r' then Some (int (digits_value r')) else None)
                    else if digit_group r then Some (int (digits_value r)) else None)
          else None)"

definition py_float_fraction :: "string \<Rightarrow> rat option" where
  "py_float_fraction ms_part =
     (let t = rev (dropWhile py_isspace (rev ms_part));
          mant = takeWhile (\<lambda>c. is_digit c \<or> c = CHR ''_'') t;
          rest = dropWhile (\<lambda>c. is_digit c \<or> c = CHR ''_'') t
      in if mant \<noteq> [] \<and> \<not> digit_group mant then None
         else (case py_exponent rest of
                 None \<Rightarrow> None
               | Some ex \<Rightarrow>
                   Some (of_nat (digits_value mant) / 10 ^ length (filter is_digit mant)
                           * (if 0 \<le> ex then 10 ^ nat ex else 1 / 10 ^ nat (- ex)))))"

text \<open>
  Every exception raised inside \<open>timestamp_to_seconds\<close> is caught and raised again as
  \<open>ValueError\<close>: more than one dot (the unpacking fails), a part that is no integer,
  other than two or three parts.
\<close>

definition timestamp_to_seconds :: "string \<Rightarrow> py_error + rat" where
  "timestamp_to_seconds timestamp =
     (let split_ms =
            (if CHR ''.'' \<in> set timestamp
             then (case py_split CHR ''.'' timestamp of
                     [time_part, ms_part] \<Rightarrow>
                       (case py_float_fraction ms_part of
                          None \<Rightarrow> None
                        | Some milliseconds \<Rightarrow> Some (time_part, milliseconds))
                   | _ \<Rightarrow> None)
             else Some (timestamp, 0))
      in case split_ms of
           None \<Rightarrow> Inl ValueError
         | Some (time_part, milliseconds) \<Rightarrow>
             (case map py_int (py_split CHR '':'' time_part) of
                [Some hours, Some minutes, Some seconds] \<Rightarrow>
                  Inr (py_round (of_int (hours * 3600 + minutes * 60 + seconds) + milliseconds) 3)
              | [Some minutes, Some seconds] \<Rightarrow>
                  Inr (py_round (of_int (0 * 3600 + minutes * 60 + seconds) + milliseconds) 3)
              | _ \<Rightarrow> Inl ValueError))"

section \<open>Fusion engine (src/audio\_processing/fusion.py)\<close>

text \<open>
  The inputs of \<open>merge_transcription_and_diarization\<close> are dictionaries, and so are the
  segments, words and speaker intervals inside them. Every key is an optional field: a
  read \<open>d[key]\<close> of an absent key raises \<open>KeyError\<close>, a read \<open>d.get(key, default)\<close> gives the
  default, and \<open>key in d\<close> tests the presence.
\<close>

record word_span =
  w_word :: "string option"
  w_start :: "rat option"
  w_end :: "rat option"

record transcript_segment =
  ts_start :: "rat option"
  ts_end :: "rat option"
  ts_text :: "string option"
  ts_words :: "word_span list option"

record transcription =
  t_file :: "string option"
  t_language :: "string option"
  t_segments :: "transcript_segment list option"

record speaker_dict =
  sd_start :: "rat option"
  sd_end :: "rat option"
  sd_speaker :: "string option"

record diarization =
  d_num_speakers :: "int option"
  d_speakers :: "string list option"
  d_segments :: "speaker_dict list option"

record merged_word =
  mw_word :: string
  mw_start :: rat
  mw_end :: rat
  mw_speaker :: string

record merged_segment =
  ms_start :: rat
  ms_end :: rat
  ms_text :: string
  ms_speaker :: string
  ms_words :: "merged_word list option"

record merged_transcript =
  mt_file :: string
  mt_language :: string
  mt_num_speakers :: int
  mt_speakers :: "string list"
  mt_segments :: "merged_segment list"

text \<open>
  \<open>find_speaker_for_segment\<close> as the fusion calls it, on the interval dictionaries of
  the diarization: the loop reads \<open>seg["start"]\<close> and \<open>seg["end"]\<close> of every interval, and
  \<open>seg["speaker"]\<close> of an interval whose overlap is greater than the greatest so far.
  On dictionaries that have the three keys it is \<open>find_speaker_for_segment\<close> above
  (lemma \<open>find_speaker_dicts_present\<close>).
\<close>

fun find_speaker_dicts_loop ::
  "rat \<Rightarrow> rat \<Rightarrow> speaker_dict list \<Rightarrow> rat \<times> string \<Rightarrow> py_error + rat \<times> string" where
  "find_speaker_dicts_loop segment_start segment_end [] st = Inr st"
| "find_speaker_dicts_loop segment_start segment_end (seg # segs) (max_overlap, best_speaker) =
     (case sd_start seg of
        None \<Rightarrow> Inl (KeyError ''start'')
      | Some seg_start \<Rightarrow>
     (case sd_end seg of
        None \<Rightarrow> Inl (KeyError ''end'')
      | Some seg_end \<Rightarrow>
          (let overlap_start = max segment_start seg_start;
               overlap_end = min segment_end seg_end;
               overlap = max 0 (overlap_end - overlap_start)
           in if overlap > max_overlap
              then (case sd_speaker seg of
                      None \<Rightarrow> Inl (KeyError ''speaker'')
                    | Some speaker \<Rightarrow>
                        find_speaker_dicts_loop segment_start segment_end segs (overlap, speaker))
              else find_speaker_dicts_loop segment_start segment_end segs
                     (max_overlap, best_speaker))))"

definition find_speaker_dicts :: "rat \<Rightarrow> rat \<Rightarrow> speaker_dict list \<Rightarrow> py_error + string" where
  "find_speaker_dicts segment_start segment_end speaker_segments =
     (case find_speaker_dicts_loop segment_start segment_end speaker_segments (0, ''UNKNOWN'') of
        Inl err \<Rightarrow> Inl err
      | Inr (max_overlap, best_speaker) \<Rightarrow>
          Inr (if max_overlap > 0 then best_speaker else ''UNKNOWN''))"

text \<open>
  The interval of a dictionary that has the three keys (an absent key, never read where
  this is used, is given a default).
\<close>

definition interval_of :: "speaker_dict \<Rightarrow> speaker_interval" where
  "interval_of d =
     \<lparr>si_start = (case sd_start d of None \<Rightarrow> 0 | Some v \<Rightarrow> v),
      si_end = (case sd_end d of None \<Rightarrow> 0 | Some v \<Rightarrow> v),
      si_speaker = (case sd_speaker d of None \<Rightarrow> [] | Some v \<Rightarrow> v)\<rparr>"

text \<open>
  The body of the inner loop \<open>for word in segment["words"]\<close>, and the loop. The speaker of
  the word is found before \<open>word["word"]\<close> is read.
\<close>

definition merge_word ::
  "speaker_dict list \<Rightarrow> rat \<Rightarrow> rat \<Rightarrow> word_span \<Rightarrow> py_error + merged_word" where
  "merge_word speaker_segments start_time end_time word =
     (let word_start = (case w_start word of None \<Rightarrow> start_time | Some v \<Rightarrow> v);
          word_end = (case w_end word of None \<Rightarrow> end_time | Some v \<Rightarrow> v)
      in case find_speaker_dicts word_start word_end speaker_segments of
           Inl err \<Rightarrow> Inl err
         | Inr word_speaker \<Rightarrow>
             (case w_word word of
                None \<Rightarrow> Inl (KeyError ''word'')
              | Some w \<Rightarrow>
                  Inr \<lparr>mw_word = w, mw_start = py_round word_start 3,
                       mw_end = py_round word_end 3, mw_speaker = word_speaker\<rparr>))"

fun merge_words_loop ::
  "speaker_dict list \<Rightarrow> rat \<Rightarrow> rat \<Rightarrow> word_span list \<Rightarrow> merged_word list
     \<Rightarrow> py_error + merged_word list" where
  "merge_words_loop speaker_segments start_time end_time [] words_with_speakers =
     Inr words_with_speakers"
| "merge_words_loop speaker_segments start_time end_time (word # rest) words_with_speakers =
     (case merge_word speaker_segments start_time end_time word of
        Inl err \<Rightarrow> Inl err
      | Inr merged_word \<Rightarrow>
          merge_words_loop speaker_segments start_time end_time rest
            (words_with_speakers @ [merged_word]))"

text \<open>
  The body of the loop \<open>for segment in transcript_segments\<close>, and the loop. The reads are
  in the order of the source: \<open>segment["start"]\<close>, \<open>segment["end"]\<close>, the speaker,
  \<open>segment["text"]\<close>, then the words when the segment has the key \<open>words\<close>.
\<close>

definition merge_segment ::
  "speaker_dict list \<Rightarrow> transcript_segment \<Rightarrow> py_error + merged_segment" where
  "merge_segment speaker_segments segment =
     (case ts_start segment of
        None \<Rightarrow> Inl (KeyError ''start'')
      | Some start_time \<Rightarrow>
     (case ts_end segment of
        None \<Rightarrow> Inl (KeyError ''end'')
      | Some end_time \<Rightarrow>
     (case find_speaker_dicts start_time end_time speaker_segments of
        Inl err \<Rightarrow> Inl err
      | Inr speaker \<Rightarrow>
     (case ts_text segment of
        None \<Rightarrow> Inl (KeyError ''text'')
      | Some segment_text \<Rightarrow>
          (let merged_segment =
                 \<lparr>ms_start = py_round start_time 3, ms_end = py_round end_time 3,
                  ms_text = py_strip segment_text, ms_speaker = speaker, ms_words = None\<rparr>
           in case ts_words segment of
                None \<Rightarrow> Inr merged_segment
              | Some ws \<Rightarrow>
                  (case merge_words_loop speaker_segments start_time end_time ws [] of
                     Inl err \<Rightarrow> Inl err
                   | Inr words_with_speakers \<Rightarrow>
                       Inr (merged_segment\<lparr>ms_words := Some words_with_speakers\<rparr>)))))))"

fun merge_loop ::
  "speaker_dict list \<Rightarrow> transcript_segment list \<Rightarrow> merged_segment list
     \<Rightarrow> py_error + merged_segment list" where
  "merge_loop speaker_segments [] merged_segments = Inr merged_segments"
| "merge_loop speaker_segments (segment # rest) merged_segments =
     (case merge_segment speaker_segments segment of
        Inl err \<Rightarrow> Inl err
      | Inr merged_segment \<Rightarrow>
          merge_loop speaker_segments rest (merged_segments @ [merged_segment]))"

text \<open>
  The result of a call that returns is the merged transcript together with the file
  the call has written: \<open>Some (path, data)\<close> when \<open>output_path\<close> is given (a
  \<open>Path\<close> is always truthy), \<open>None\<close> otherwise. A failure of the file system is outside
  the model. A call that raises returns \<open>Inl\<close>: no transcript and no file.
\<close>

definition merge_transcription_and_diarization ::
  "transcription \<Rightarrow> diarization \<Rightarrow> string option
     \<Rightarrow> py_error + (merged_transcript \<times> (string \<times> merged_transcript) option)" where
  "merge_transcription_and_diarization transcription diarization output_path =
     (case d_segments diarization of
        None \<Rightarrow> Inl (KeyError ''segments'')
      | Some speaker_segments \<Rightarrow>
     (case t_segments transcription of
        None \<Rightarrow> Inl (KeyError ''segments'')
      | Some transcript_segments \<Rightarrow>
     (case merge_loop speaker_segments transcript_segments [] of
        Inl err \<Rightarrow> Inl err
      | Inr merged_segments \<Rightarrow>
     (case t_file transcription of
        None \<Rightarrow> Inl (KeyError ''file'')
      | Some file \<Rightarrow>
     (case t_language transcription of
        None \<Rightarrow> Inl (KeyError ''language'')
      | Some language \<Rightarrow>
     (case d_num_speakers diarization of
        None \<Rightarrow> Inl (KeyError ''num_speakers'')
      | Some num_speakers \<Rightarrow>
     (case d_speakers diarization of
        None \<Rightarrow> Inl (KeyError ''speakers'')
      | Some speakers \<Rightarrow>
          (let output = \<lparr>mt_file = file, mt_language = language,
                         mt_num_speakers = num_speakers, mt_speakers = speakers,
                         mt_segments = merged_segments\<rparr>
           in Inr (output,
                   (case output_path of None \<Rightarrow> None | Some path \<Rightarrow> Some (path, output)))))))))))"

text \<open>The keys the fusion reads with \<open>d[key]\<close> in a segment and in a speaker interval.\<close>

definition segment_keys_present :: "transcript_segment \<Rightarrow> bool" where
  "segment_keys_present segment =
     (ts_start segment \<noteq> None \<and> ts_end segment \<noteq> None \<and> ts_text segment \<noteq> None
        \<and> (case ts_words segment of
              None \<Rightarrow> True
            | Some ws \<Rightarrow> list_all (\<lambda>w. w_word w \<noteq> None) ws))"

definition interval_keys_present :: "speaker_dict \<Rightarrow> bool" where
  "interval_keys_present seg =
     (sd_start seg \<noteq> None \<and> sd_end seg \<noteq> None \<and> sd_speaker seg \<noteq> None)"

section \<open>Duration-based chunker (src/database/chunking.py)\<close>

text \<open>
  The transcript read by the chunkers: \<open>segments\<close> and \<open>file\<close> are read with \<open>get\<close>,
  and so is the \<open>speaker\<close> of a segment.
\<close>

record segment =
  seg_start :: rat
  seg_end :: rat
  seg_text :: string
  seg_speaker :: "string option"

record transcript =
  tr_file :: "string option"
  tr_segments :: "segment list option"

text \<open>\<open>Config.CHUNK_DURATION\<close> and \<open>Config.CHUNK_OVERLAP\<close> (src/utils/config.py).\<close>

definition CHUNK_DURATION :: rat where
  "CHUNK_DURATION = 45"

definition CHUNK_OVERLAP :: rat where
  "CHUNK_OVERLAP = 5"

text \<open>
  The dictionary \<open>current_chunk\<close>. Its \<open>speakers\<close> are a Python set, turned into a list
  when the chunk is closed; the order of that list depends on the hashes of the strings,
  so the model keeps the set.
\<close>

record chunk_acc =
  ca_text :: string
  ca_start :: "rat option"
  ca_end :: "rat option"
  ca_speakers :: "string set"
  ca_segment_indices :: "nat list"

definition initial_chunk :: chunk_acc where
  "initial_chunk = \<lparr>ca_text = [], ca_start = None, ca_end = None, ca_speakers = {},
                     ca_segment_indices = []\<rparr>"

definition speaker_of :: "segment \<Rightarrow> string" where
  "speaker_of s = (case seg_speaker s of None \<Rightarrow> ''UNKNOWN'' | Some l \<Rightarrow> l)"

text \<open>
  One iteration of \<open>for idx, segment in enumerate(segments)\<close>; the state is the pair
  \<open>(chunks, current_chunk)\<close>. \<open>segments[max(0, idx-5):idx]\<close> is
  \<open>drop (idx - 5) (take idx segments)\<close>, the subtraction on \<open>nat\<close> stopping at 0.
\<close>

definition chunk_step ::
  "rat \<Rightarrow> rat \<Rightarrow> int \<Rightarrow> segment list \<Rightarrow> chunk_acc list \<times> chunk_acc \<Rightarrow> nat \<Rightarrow> segment
     \<Rightarrow> chunk_acc list \<times> chunk_acc" where
  "chunk_step chunk_duration chunk_overlap min_chunk_size segments st idx segment =
     (case st of (chunks, current_chunk0) \<Rightarrow>
      (let segment_start = seg_start segment;
           segment_end = seg_end segment;
           segment_text = seg_text segment;
           segment_speaker = speaker_of segment;
           chunk_start = (case ca_start current_chunk0 of None \<Rightarrow> segment_start | Some v \<Rightarrow> v);
           current_chunk1 = current_chunk0\<lparr>ca_start := Some chunk_start\<rparr>;
           chunk_duration_so_far = segment_end - chunk_start;
           st2 =
             (if chunk_duration < chunk_duration_so_far
                 \<and> min_chunk_size \<le> int (length (ca_text current_chunk1))
              then (let overlap_start = segment_end - chunk_overlap;
                        overlap_segments =
                          filter (\<lambda>s. overlap_start \<le> seg_end s) (drop (idx - 5) (take idx segments))
                    in (chunks @ [current_chunk1\<lparr>ca_end := Some segment_end\<rparr>],
                        \<lparr>ca_text = py_join '' '' (map seg_text overlap_segments),
                         ca_start = Some overlap_start, ca_end = None,
                         ca_speakers = set (map speaker_of overlap_segments),
                         ca_segment_indices = []\<rparr>))
              else (chunks, current_chunk1))
       in (case st2 of (chunks2, current_chunk2) \<Rightarrow>
            (chunks2,
             current_chunk2\<lparr>ca_text := ca_text current_chunk2 @ '' '' @ segment_text,
                             ca_end := Some segment_end,
                             ca_speakers := insert segment_speaker (ca_speakers current_chunk2),
                             ca_segment_indices := ca_segment_indices current_chunk2 @ [idx]\<rparr>))))"

fun chunk_loop ::
  "rat \<Rightarrow> rat \<Rightarrow> int \<Rightarrow> segment list \<Rightarrow> nat \<Rightarrow> segment list \<Rightarrow> chunk_acc list \<times> chunk_acc
     \<Rightarrow> chunk_acc list \<times> chunk_acc" where
  "chunk_loop chunk_duration chunk_overlap min_chunk_size segments idx [] st = st"
| "chunk_loop chunk_duration chunk_overlap min_chunk_size segments idx (segment # rest) st =
     chunk_loop chunk_duration chunk_overlap min_chunk_size segments (Suc idx) rest
       (chunk_step chunk_duration chunk_overlap min_chunk_size segments st idx segment)"

text \<open>The condition of \<open># Add final chunk\<close>.\<close>

definition final_chunk_kept :: "chunk_acc \<Rightarrow> int \<Rightarrow> bool" where
  "final_chunk_kept current_chunk min_chunk_size =
     (py_strip (ca_text current_chunk) \<noteq> []
        \<and> min_chunk_size \<le> int (length (ca_text current_chunk)))"

text \<open>
  The formatted chunk. \<open>seconds_to_timestamp(None)\<close> raises \<open>TypeError\<close> (the comparison
  \<open>None < 0\<close>), so formatting a chunk without start or end is an error.
\<close>

record chunk =
  ch_chunk_id :: nat
  ch_text :: string
  ch_start :: rat
  ch_end :: rat
  ch_timestamp_start :: string
  ch_timestamp_end :: string
  ch_duration :: rat
  ch_speakers :: "string set"
  ch_episode :: string
  ch_num_segments :: nat

definition format_chunk :: "string \<Rightarrow> nat \<Rightarrow> chunk_acc \<Rightarrow> py_error + chunk" where
  "format_chunk episode_name i c =
     (case ca_start c of
        None \<Rightarrow> Inl TypeError
      | Some s \<Rightarrow>
     (case ca_end c of
        None \<Rightarrow> Inl TypeError
      | Some e \<Rightarrow>
          Inr \<lparr>ch_chunk_id = i, ch_text = py_strip (ca_text c), ch_start = s, ch_end = e,
               ch_timestamp_start = seconds_to_timestamp s True,
               ch_timestamp_end = seconds_to_timestamp e True,
               ch_duration = py_round (e - s) 2, ch_speakers = ca_speakers c,
               ch_episode = episode_name, ch_num_segments = length (ca_segment_indices c)\<rparr>))"

fun format_chunks :: "string \<Rightarrow> nat \<Rightarrow> chunk_acc list \<Rightarrow> chunk list \<Rightarrow> py_error + chunk list" where
  "format_chunks episode_name i [] formatted_chunks = Inr formatted_chunks"
| "format_chunks episode_name i (c # cs) formatted_chunks =
     (case format_chunk episode_name i c of
        Inl err \<Rightarrow> Inl err
      | Inr formatted_chunk \<Rightarrow>
          format_chunks episode_name (Suc i) cs (formatted_chunks @ [formatted_chunk]))"

text \<open>
  The state after the loop, for the effective parameters (the \<open>or\<close> fallback applied).
\<close>

definition chunk_accumulate ::
  "transcript \<Rightarrow> rat option \<Rightarrow> rat option \<Rightarrow> int \<Rightarrow> chunk_acc list \<times> chunk_acc" where
  "chunk_accumulate transcript chunk_duration chunk_overlap min_chunk_size =
     (let segments = (case tr_segments transcript of None \<Rightarrow> [] | Some v \<Rightarrow> v)
      in chunk_loop (py_or chunk_duration CHUNK_DURATION) (py_or chunk_overlap CHUNK_OVERLAP)
           min_chunk_size segments 0 segments ([], initial_chunk))"

definition chunk_transcript ::
  "transcript \<Rightarrow> rat option \<Rightarrow> rat option \<Rightarrow> int \<Rightarrow> py_error + chunk list" where
  "chunk_transcript transcript chunk_duration chunk_overlap min_chunk_size =
     (let segments = (case tr_segments transcript of None \<Rightarrow> [] | Some v \<Rightarrow> v);
          episode_name = (case tr_file transcript of None \<Rightarrow> ''unknown'' | Some v \<Rightarrow> v)
      in if segments = [] then Inr []
         else (case chunk_accumulate transcript chunk_duration chunk_overlap min_chunk_size of
                 (chunks, current_chunk) \<Rightarrow>
                   format_chunks episode_name 0
                     (if final_chunk_kept current_chunk min_chunk_size
                      then chunks @ [current_chunk] else chunks) []))"

section \<open>Speaker-turn chunker (src/database/chunking.py)\<close>

text \<open>
  The dictionary \<open>current_chunk\<close> of \<open>chunk_by_speaker_turns\<close>; the first one has no key
  \<open>episode\<close>. In a condition, a number is truthy when it is not zero and a string when
  it is not empty.
\<close>

record turn_acc =
  ta_text :: string
  ta_start :: "rat option"
  ta_end :: "rat option"
  ta_speaker :: "string option"
  ta_episode :: "string option"

definition initial_turn :: turn_acc where
  "initial_turn = \<lparr>ta_text = [], ta_start = None, ta_end = None, ta_speaker = None,
                    ta_episode = None\<rparr>"

definition truthy :: "rat option \<Rightarrow> bool" where
  "truthy v = (case v of None \<Rightarrow> False | Some x \<Rightarrow> x \<noteq> 0)"

text \<open>
  One iteration of \<open>for segment in segments\<close>; the state is
  \<open>(chunks, current_speaker, current_chunk)\<close>.
\<close>

definition turn_step ::
  "rat \<Rightarrow> string \<Rightarrow> turn_acc list \<times> string option \<times> turn_acc \<Rightarrow> segment
     \<Rightarrow> turn_acc list \<times> string option \<times> turn_acc" where
  "turn_step max_turn_duration episode_name st segment =
     (case st of (chunks, current_speaker, current_chunk) \<Rightarrow>
      (let speaker = speaker_of segment
       in if (Some speaker \<noteq> current_speaker \<and> ta_text current_chunk \<noteq> [])
             \<or> (case ta_start current_chunk of
                   None \<Rightarrow> False
                 | Some st0 \<Rightarrow> st0 \<noteq> 0 \<and> max_turn_duration < seg_end segment - st0)
          then (chunks @ [current_chunk\<lparr>ta_end :=
                            Some (case ta_end current_chunk of
                                    None \<Rightarrow> seg_start segment
                                  | Some e \<Rightarrow> if e \<noteq> 0 then e else seg_start segment)\<rparr>],
                Some speaker,
                \<lparr>ta_text = seg_text segment, ta_start = Some (seg_start segment),
                 ta_end = Some (seg_end segment), ta_speaker = Some speaker,
                 ta_episode = Some episode_name\<rparr>)
          else (let opened =
                      (if ta_text current_chunk = []
                       then (Some speaker,
                             current_chunk\<lparr>ta_start := Some (seg_start segment),
                                            ta_speaker := Some speaker\<rparr>)
                       else (current_speaker, current_chunk))
                in (chunks, fst opened,
                    (snd opened)\<lparr>ta_text := ta_text (snd opened) @ '' '' @ seg_text segment,
                                  ta_end := Some (seg_end segment)\<rparr>))))"

fun turn_loop ::
  "rat \<Rightarrow> string \<Rightarrow> segment list \<Rightarrow> turn_acc list \<times> string option \<times> turn_acc
     \<Rightarrow> turn_acc list \<times> string option \<times> turn_acc" where
  "turn_loop max_turn_duration episode_name [] st = st"
| "turn_loop max_turn_duration episode_name (segment # rest) st =
     turn_loop max_turn_duration episode_name rest
       (turn_step max_turn_duration episode_name st segment)"

record turn_chunk =
  tc_text :: string
  tc_start :: rat
  tc_end :: rat
  tc_speaker :: "string option"
  tc_episode :: "string option"
  tc_chunk_id :: nat
  tc_timestamp_start :: string
  tc_timestamp_end :: string
  tc_duration :: rat
  tc_speakers :: "string option list"

definition format_turn :: "nat \<Rightarrow> turn_acc \<Rightarrow> py_error + turn_chunk" where
  "format_turn i c =
     (case ta_start c of
        None \<Rightarrow> Inl TypeError
      | Some s \<Rightarrow>
     (case ta_end c of
        None \<Rightarrow> Inl TypeError
      | Some e \<Rightarrow>
          Inr \<lparr>tc_text = ta_text c, tc_start = s, tc_end = e, tc_speaker = ta_speaker c,
               tc_episode = ta_episode c, tc_chunk_id = i,
               tc_timestamp_start = seconds_to_timestamp s True,
               tc_timestamp_end = seconds_to_timestamp e True,
               tc_duration = py_round (e - s) 2, tc_speakers = [ta_speaker c]\<rparr>))"

fun format_turns :: "nat \<Rightarrow> turn_acc list \<Rightarrow> py_error + turn_chunk list" where
  "format_turns i [] = Inr []"
| "format_turns i (c # cs) =
     (case format_turn i c of
        Inl err \<Rightarrow> Inl err
      | Inr formatted \<Rightarrow>
          (case format_turns (Suc i) cs of
             Inl err \<Rightarrow> Inl err
           | Inr formatted_rest \<Rightarrow> Inr (formatted # formatted_rest)))"

definition chunk_by_speaker_turns :: "transcript \<Rightarrow> rat \<Rightarrow> py_error + turn_chunk list" where
  "chunk_by_speaker_turns transcript max_turn_duration =
     (let segments = (case tr_segments transcript of None \<Rightarrow> [] | Some v \<Rightarrow> v);
          episode_name = (case tr_file transcript of None \<Rightarrow> ''unknown'' | Some v \<Rightarrow> v)
      in case turn_loop max_turn_duration episode_name segments ([], None, initial_turn) of
           (chunks, current_speaker, current_chunk) \<Rightarrow>
             format_turns 0
               (if py_strip (ta_text current_chunk) \<noteq> [] then chunks @ [current_chunk]
                else chunks))"

section \<open>Invariants of the chunker loops\<close>

text \<open>
  Predicates used in the proofs about the two loops. A closed chunk has a start and an
  end; \<open>start_lt\<close> and \<open>touches\<close> relate a chunk to the next one in the list.
\<close>

definition closed :: "chunk_acc \<Rightarrow> bool" where
  "closed c = (ca_start c \<noteq> None \<and> ca_end c \<noteq> None)"

definition start_lt :: "chunk_acc \<Rightarrow> chunk_acc \<Rightarrow> bool" where
  "start_lt a b =
     (case ca_start a of
        None \<Rightarrow> False
      | Some x \<Rightarrow> (case ca_start b of None \<Rightarrow> False | Some y \<Rightarrow> x < y))"

definition touches :: "chunk_acc \<Rightarrow> chunk_acc \<Rightarrow> bool" where
  "touches a b =
     (case ca_end a of
        None \<Rightarrow> False
      | Some e \<Rightarrow> (case ca_start b of None \<Rightarrow> False | Some s \<Rightarrow> s \<le> e))"

text \<open>
  For the speaker-turn chunker. The text of a chunk built from a run of segments is
  either every text of the run with a space before it (a chunk opened by the branch
  that continues the current chunk) or the first text followed by the others with a
  space before each (a chunk opened when the previous one was closed). A chunk is built
  from a run when it has the run's speaker label, shared by every segment of the run,
  the start of the run's first segment, an end, and such a text. The invariant of the
  loop, for the segments \<open>processed\<close> so far: \<open>current_speaker\<close> is the speaker of the
  current chunk, every closed chunk is built from a run of consecutive segments of the
  transcript, and the current chunk is the initial one or is built from the run that
  ends \<open>processed\<close>.
\<close>

definition spaced_texts :: "segment list \<Rightarrow> string" where
  "spaced_texts run = concat (map (\<lambda>s. '' '' @ seg_text s) run)"

definition run_text :: "segment list \<Rightarrow> string \<Rightarrow> bool" where
  "run_text run txt =
     (txt = spaced_texts run \<or> txt = seg_text (hd run) @ spaced_texts (tl run))"

definition turn_built :: "segment list \<Rightarrow> turn_acc \<Rightarrow> bool" where
  "turn_built run c =
     (run \<noteq> []
        \<and> (case ta_speaker c of None \<Rightarrow> False | Some l \<Rightarrow> list_all (\<lambda>s. speaker_of s = l) run)
        \<and> ta_start c = Some (seg_start (hd run)) \<and> ta_end c \<noteq> None
        \<and> run_text run (ta_text c))"

definition turn_inv ::
  "segment list \<Rightarrow> segment list \<Rightarrow> turn_acc list \<times> string option \<times> turn_acc \<Rightarrow> bool" where
  "turn_inv segs processed st =
     (case st of (chunks, current_speaker, current_chunk) \<Rightarrow>
        current_speaker = ta_speaker current_chunk
      \<and> (\<forall>c\<in>set chunks. \<exists>pre run post. segs = pre @ run @ post \<and> turn_built run c)
      \<and> ((ta_text current_chunk = [] \<and> ta_start current_chunk = None)
           \<or> (\<exists>pre run. processed = pre @ run \<and> turn_built run current_chunk)))"

section \<open>Properties of the overlap matcher\<close>

lemma overlap_nonneg: "0 \<le> overlap s e seg"
  by (simp add: overlap_def Let_def)

lemma find_speaker_loop_unchanged:
  "\<forall>iv\<in>set ivs. overlap s e iv \<le> m \<Longrightarrow> find_speaker_loop s e ivs (m, b) = (m, b)"
  by (induction ivs) auto

lemma find_speaker_loop_best:
  assumes "\<exists>iv\<in>set ivs. m < overlap s e iv"
  shows "\<exists>i<length ivs.
           find_speaker_loop s e ivs (m, b) = (overlap s e (ivs ! i), si_speaker (ivs ! i))
         \<and> m < overlap s e (ivs ! i)
         \<and> (\<forall>j<length ivs. overlap s e (ivs ! j) \<le> overlap s e (ivs ! i))
         \<and> (\<forall>j<i. overlap s e (ivs ! j) < overlap s e (ivs ! i))"
  using assms
proof (induction ivs arbitrary: m b)
  case Nil
  then show ?case by simp
next
  case (Cons iv ivs)
  let ?o = "overlap s e iv"
  show ?case
  proof (cases "m < ?o")
    case True
    show ?thesis
    proof (cases "\<exists>iv'\<in>set ivs. ?o < overlap s e iv'")
      case False
      then have le: "\<forall>iv'\<in>set ivs. overlap s e iv' \<le> ?o" by auto
      have "find_speaker_loop s e (iv # ivs) (m, b) = (?o, si_speaker iv)"
        using True find_speaker_loop_unchanged [OF le] by simp
      moreover have "\<forall>j<length (iv # ivs). overlap s e ((iv # ivs) ! j) \<le> ?o"
        using le by (auto simp: nth_Cons split: nat.splits)
      ultimately show ?thesis using True
        by (intro exI [of _ 0]) simp
    next
      case ex: True
      from Cons.IH [OF ex, of "si_speaker iv"] obtain i where i:
        "i < length ivs"
        "find_speaker_loop s e ivs (?o, si_speaker iv)
           = (overlap s e (ivs ! i), si_speaker (ivs ! i))"
        "?o < overlap s e (ivs ! i)"
        "\<forall>j<length ivs. overlap s e (ivs ! j) \<le> overlap s e (ivs ! i)"
        "\<forall>j<i. overlap s e (ivs ! j) < overlap s e (ivs ! i)"
        by blast
      have "\<forall>j<length (iv # ivs). overlap s e ((iv # ivs) ! j) \<le> overlap s e (ivs ! i)"
        using i(3,4) by (auto simp: nth_Cons split: nat.splits)
      moreover have "\<forall>j<Suc i. overlap s e ((iv # ivs) ! j) < overlap s e (ivs ! i)"
        using i(3,5) by (auto simp: nth_Cons split: nat.splits)
      ultimately show ?thesis using True i(1,2,3)
        by (intro exI [of _ "Suc i"]) auto
    qed
  next
    case False
    with Cons.prems have ex: "\<exists>iv'\<in>set ivs. m < overlap s e iv'" by auto
    from Cons.IH [OF ex, of b] obtain i where i:
      "i < length ivs"
      "find_speaker_loop s e ivs (m, b) = (overlap s e (ivs ! i), si_speaker (ivs ! i))"
      "m < overlap s e (ivs ! i)"
      "\<forall>j<length ivs. overlap s e (ivs ! j) \<le> overlap s e (ivs ! i)"
      "\<forall>j<i. overlap s e (ivs ! j) < overlap s e (ivs ! i)"
      by blast
    have "\<forall>j<length (iv # ivs). overlap s e ((iv # ivs) ! j) \<le> overlap s e (ivs ! i)"
      using i(3,4) False by (auto simp: nth_Cons split: nat.splits)
    moreover have "\<forall>j<Suc i. overlap s e ((iv # ivs) ! j) < overlap s e (ivs ! i)"
      using i(3,5) False by (auto simp: nth_Cons split: nat.splits)
    ultimately show ?thesis using False i(1,2,3)
      by (intro exI [of _ "Suc i"]) auto
  qed
qed

text \<open>
  C1. For every query interval and every list of speaker intervals, with
  \<open>overlap = max(0, min(e, interval.end) - max(s, interval.start))\<close>: when no interval has
  a positive overlap (in particular for the empty list) the result is the sentinel
  \<open>''UNKNOWN''\<close>; otherwise the result is the label of an interval whose overlap is the
  greatest of the list and strictly greater than the overlap of every interval before it
  in the list (the first-seen interval wins a tie).
\<close>

theorem find_speaker_for_segment_best_overlap:
  "((\<forall>iv\<in>set ivs. max 0 (min e (si_end iv) - max s (si_start iv)) = 0)
       \<longrightarrow> find_speaker_for_segment s e ivs = ''UNKNOWN'')
   \<and> ((\<exists>iv\<in>set ivs. 0 < max 0 (min e (si_end iv) - max s (si_start iv))) \<longrightarrow>
        (\<exists>i<length ivs.
            find_speaker_for_segment s e ivs = si_speaker (ivs ! i)
          \<and> overlap s e (ivs ! i) = max 0 (min e (si_end (ivs ! i)) - max s (si_start (ivs ! i)))
          \<and> 0 < overlap s e (ivs ! i)
          \<and> (\<forall>j<length ivs. overlap s e (ivs ! j) \<le> overlap s e (ivs ! i))
          \<and> (\<forall>j<i. overlap s e (ivs ! j) < overlap s e (ivs ! i))))"
proof (intro conjI impI)
  assume "\<forall>iv\<in>set ivs. max 0 (min e (si_end iv) - max s (si_start iv)) = 0"
  then have "\<forall>iv\<in>set ivs. overlap s e iv \<le> 0"
    by (simp add: overlap_def Let_def)
  from find_speaker_loop_unchanged [OF this]
  show "find_speaker_for_segment s e ivs = ''UNKNOWN''"
    by (simp add: find_speaker_for_segment_def)
next
  assume "\<exists>iv\<in>set ivs. 0 < max 0 (min e (si_end iv) - max s (si_start iv))"
  then have "\<exists>iv\<in>set ivs. 0 < overlap s e iv"
    by (simp add: overlap_def Let_def)
  from find_speaker_loop_best [OF this, of "''UNKNOWN''"]
  obtain i where i: "i < length ivs"
    "find_speaker_loop s e ivs (0, ''UNKNOWN'') = (overlap s e (ivs ! i), si_speaker (ivs ! i))"
    "0 < overlap s e (ivs ! i)"
    "\<forall>j<length ivs. overlap s e (ivs ! j) \<le> overlap s e (ivs ! i)"
    "\<forall>j<i. overlap s e (ivs ! j) < overlap s e (ivs ! i)"
    by blast
  have "find_speaker_for_segment s e ivs = si_speaker (ivs ! i)"
    using i(2,3) by (simp add: find_speaker_for_segment_def)
  moreover have "overlap s e (ivs ! i)
                   = max 0 (min e (si_end (ivs ! i)) - max s (si_start (ivs ! i)))"
    by (simp add: overlap_def Let_def)
  ultimately show "\<exists>i<length ivs.
            find_speaker_for_segment s e ivs = si_speaker (ivs ! i)
          \<and> overlap s e (ivs ! i) = max 0 (min e (si_end (ivs ! i)) - max s (si_start (ivs ! i)))
          \<and> 0 < overlap s e (ivs ! i)
          \<and> (\<forall>j<length ivs. overlap s e (ivs ! j) \<le> overlap s e (ivs ! i))
          \<and> (\<forall>j<i. overlap s e (ivs ! j) < overlap s e (ivs ! i))"
    using i(1,3,4,5) by blast
qed

text \<open>
  The theorem at the example of the specification (no overlap) and at a tie: the query
  \<open>[0, 10]\<close> overlaps \<open>A = [0, 5]\<close> and \<open>B = [5, 10]\<close> by 5 seconds each, and \<open>A\<close>, first in
  the list, is returned.
\<close>

theorem find_speaker_for_segment_best_overlap_witness:
  "find_speaker_for_segment 10 20 [\<lparr>si_start = 0, si_end = 5, si_speaker = ''A''\<rparr>] = ''UNKNOWN''
   \<and> overlap 0 10 \<lparr>si_start = 0, si_end = 5, si_speaker = ''A''\<rparr> = 5
   \<and> overlap 0 10 \<lparr>si_start = 5, si_end = 10, si_speaker = ''B''\<rparr> = 5
   \<and> find_speaker_for_segment 0 10
        [\<lparr>si_start = 0, si_end = 5, si_speaker = ''A''\<rparr>,
         \<lparr>si_start = 5, si_end = 10, si_speaker = ''B''\<rparr>] = ''A''"
proof -
  let ?one = "[\<lparr>si_start = 0, si_end = 5, si_speaker = ''A''\<rparr>]"
  let ?two = "[\<lparr>si_start = 0, si_end = 5, si_speaker = ''A''\<rparr>,
               \<lparr>si_start = 5, si_end = 10, si_speaker = ''B''\<rparr>]"
  have h1: "\<forall>iv\<in>set ?one. max 0 (min 20 (si_end iv) - max 10 (si_start iv)) = 0"
    by simp
  have h2: "\<exists>iv\<in>set ?two. 0 < max 0 (min 10 (si_end iv) - max 0 (si_start iv))"
    by simp
  have o: "overlap 0 10 (?two ! 0) = 5" "overlap 0 10 (?two ! 1) = 5"
    by (simp_all add: overlap_def)
  have c1: "find_speaker_for_segment 10 20 ?one = ''UNKNOWN''"
    using find_speaker_for_segment_best_overlap [of ?one 20 10] h1 by blast
  from find_speaker_for_segment_best_overlap [of ?two 10 0] h2
  obtain i where i: "i < length ?two"
    "find_speaker_for_segment 0 10 ?two = si_speaker (?two ! i)"
    "\<forall>j<i. overlap 0 10 (?two ! j) < overlap 0 10 (?two ! i)"
    by blast
  have "i = 0"
  proof (rule ccontr)
    assume "i \<noteq> 0"
    with i(1) have i1: "i = 1" by simp
    with i(3) have "overlap 0 10 (?two ! 0) < overlap 0 10 (?two ! 1)" by simp
    with o show False by simp
  qed
  with i(2) have c2: "find_speaker_for_segment 0 10 ?two = ''A''" by simp
  show ?thesis using c1 c2 o by simp
qed

section \<open>Properties of the fusion engine\<close>

text \<open>
  On interval dictionaries that have the keys \<open>start\<close>, \<open>end\<close> and \<open>speaker\<close>, the matcher
  never raises and returns what \<open>find_speaker_for_segment\<close> returns on the intervals.
\<close>

lemma find_speaker_dicts_loop_present:
  assumes "list_all interval_keys_present ivs"
  shows "find_speaker_dicts_loop s e ivs (m, b)
           = Inr (find_speaker_loop s e (map interval_of ivs) (m, b))"
  using assms
proof (induction ivs arbitrary: m b)
  case Nil
  then show ?case by simp
next
  case (Cons iv ivs)
  from Cons.prems obtain st en sp where k:
    "sd_start iv = Some st" "sd_end iv = Some en" "sd_speaker iv = Some sp"
    by (auto simp: interval_keys_present_def)
  have o: "overlap s e (interval_of iv) = max 0 (min e en - max s st)"
    by (simp add: overlap_def interval_of_def k)
  have sp: "si_speaker (interval_of iv) = sp" by (simp add: interval_of_def k)
  from Cons.prems have r: "list_all interval_keys_present ivs" by simp
  show ?case
    by (simp add: k o sp Let_def Cons.IH [OF r])
qed

lemma find_speaker_dicts_present:
  assumes "list_all interval_keys_present ivs"
  shows "find_speaker_dicts s e ivs = Inr (find_speaker_for_segment s e (map interval_of ivs))"
  by (simp add: find_speaker_dicts_def find_speaker_for_segment_def
      find_speaker_dicts_loop_present [OF assms] split: prod.splits)

text \<open>With the keys present, the loops over the words and over the segments return.\<close>

lemma merge_words_loop_present:
  assumes "list_all interval_keys_present ivs" and "list_all (\<lambda>w. w_word w \<noteq> None) ws"
  shows "\<exists>out. merge_words_loop ivs st en ws acc = Inr (acc @ out) \<and> length out = length ws"
  using assms(2)
proof (induction ws arbitrary: acc)
  case Nil
  then show ?case by simp
next
  case (Cons w ws)
  from Cons.prems obtain x where x: "w_word w = Some x" by auto
  from Cons.prems have r: "list_all (\<lambda>w. w_word w \<noteq> None) ws" by simp
  obtain mw where mw: "merge_word ivs st en w = Inr mw"
    by (simp add: merge_word_def Let_def find_speaker_dicts_present [OF assms(1)] x)
  from Cons.IH [OF r, of "acc @ [mw]"] obtain out where
    "merge_words_loop ivs st en ws (acc @ [mw]) = Inr ((acc @ [mw]) @ out)" "length out = length ws"
    by blast
  then have "merge_words_loop ivs st en (w # ws) acc = Inr (acc @ (mw # out))"
    and "length (mw # out) = length (w # ws)"
    using mw by simp_all
  then show ?case by blast
qed

lemma merge_segment_present:
  assumes "list_all interval_keys_present ivs" and "segment_keys_present seg"
  shows "\<exists>m st en tx. merge_segment ivs seg = Inr m
           \<and> ts_start seg = Some st \<and> ts_end seg = Some en \<and> ts_text seg = Some tx
           \<and> ms_start m = py_round st 3 \<and> ms_end m = py_round en 3 \<and> ms_text m = py_strip tx
           \<and> ms_speaker m = find_speaker_for_segment st en (map interval_of ivs)"
proof -
  from assms(2) obtain st en tx where k:
    "ts_start seg = Some st" "ts_end seg = Some en" "ts_text seg = Some tx"
    by (auto simp: segment_keys_present_def)
  show ?thesis
  proof (cases "ts_words seg")
    case None
    then show ?thesis
      by (simp add: merge_segment_def k find_speaker_dicts_present [OF assms(1)] Let_def)
  next
    case (Some ws)
    with assms(2) have "list_all (\<lambda>w. w_word w \<noteq> None) ws"
      by (simp add: segment_keys_present_def)
    from merge_words_loop_present [OF assms(1) this, of st en "[]"] obtain out where
      "merge_words_loop ivs st en ws [] = Inr out" by auto
    with Some show ?thesis
      by (simp add: merge_segment_def k find_speaker_dicts_present [OF assms(1)] Let_def)
  qed
qed

lemma merge_loop_present:
  assumes "list_all interval_keys_present ivs" and "list_all segment_keys_present segs"
  shows "\<exists>out. merge_loop ivs segs acc = Inr (acc @ out) \<and> length out = length segs
           \<and> (\<forall>i<length segs. merge_segment ivs (segs ! i) = Inr (out ! i))"
  using assms(2)
proof (induction segs arbitrary: acc)
  case Nil
  then show ?case by simp
next
  case (Cons seg segs)
  from Cons.prems have a: "segment_keys_present seg" and r: "list_all segment_keys_present segs"
    by simp_all
  from merge_segment_present [OF assms(1) a] obtain m where m: "merge_segment ivs seg = Inr m"
    by blast
  from Cons.IH [OF r, of "acc @ [m]"] obtain out where out:
    "merge_loop ivs segs (acc @ [m]) = Inr ((acc @ [m]) @ out)" "length out = length segs"
    "\<forall>i<length segs. merge_segment ivs (segs ! i) = Inr (out ! i)"
    by blast
  have "merge_loop ivs (seg # segs) acc = Inr (acc @ (m # out))" using m out(1) by simp
  moreover have "length (m # out) = length (seg # segs)" using out(2) by simp
  moreover have "\<forall>i<length (seg # segs). merge_segment ivs ((seg # segs) ! i) = Inr ((m # out) ! i)"
    using m out(3) by (auto simp: nth_Cons split: nat.splits)
  ultimately show ?case by blast
qed

text \<open>
  C2 (as amended). For every transcription that contains the keys \<open>file\<close>, \<open>language\<close>
  and \<open>segments\<close>, each segment containing \<open>start\<close>, \<open>end\<close> and \<open>text\<close> and each entry of
  a segment's \<open>words\<close> (when the segment has that key) containing \<open>word\<close>, and every
  diarization that contains the keys \<open>num_speakers\<close>, \<open>speakers\<close> and \<open>segments\<close>, each
  interval containing \<open>start\<close>, \<open>end\<close> and \<open>speaker\<close>, the call returns a merged
  transcript whose segments list has the length of the transcript's segments list, the
  i-th merged segment being made from the i-th transcript segment.
\<close>

theorem merge_preserves_segments:
  assumes "t_file T = Some f" and "t_language T = Some l" and "t_segments T = Some segs"
    and "d_num_speakers D = Some n" and "d_speakers D = Some sp" and "d_segments D = Some ivs"
    and "list_all segment_keys_present segs" and "list_all interval_keys_present ivs"
  shows "\<exists>M saved. merge_transcription_and_diarization T D output_path = Inr (M, saved)
           \<and> length (mt_segments M) = length segs
           \<and> (\<forall>i<length segs. merge_segment ivs (segs ! i) = Inr (mt_segments M ! i))"
proof -
  from merge_loop_present [OF assms(8,7), of "[]"] obtain out where
    "merge_loop ivs segs [] = Inr out" "length out = length segs"
    "\<forall>i<length segs. merge_segment ivs (segs ! i) = Inr (out ! i)"
    by auto
  then show ?thesis using assms(1-6)
    by (simp add: merge_transcription_and_diarization_def Let_def)
qed

theorem merge_preserves_segments_witness:
  "\<exists>M saved.
      merge_transcription_and_diarization
        \<lparr>t_file = Some ''a.mp3'', t_language = Some ''en'',
         t_segments = Some
           [\<lparr>ts_start = Some 0, ts_end = Some 5, ts_text = Some ''Hello world'',
             ts_words = Some [\<lparr>w_word = Some ''Hello'', w_start = Some 0, w_end = Some 2\<rparr>,
                              \<lparr>w_word = Some ''world'', w_start = None, w_end = None\<rparr>]\<rparr>,
            \<lparr>ts_start = Some 5, ts_end = Some 10, ts_text = Some ''How are you'',
             ts_words = None\<rparr>]\<rparr>
        \<lparr>d_num_speakers = Some 2, d_speakers = Some [''SPEAKER_00'', ''SPEAKER_01''],
         d_segments = Some [\<lparr>sd_start = Some 0, sd_end = Some 7, sd_speaker = Some ''SPEAKER_00''\<rparr>,
                            \<lparr>sd_start = Some 7, sd_end = Some 15, sd_speaker = Some ''SPEAKER_01''\<rparr>]\<rparr>
        None = Inr (M, saved)
    \<and> length (mt_segments M) = 2"
proof -
  let ?segs = "[\<lparr>ts_start = Some 0, ts_end = Some 5, ts_text = Some ''Hello world'',
             ts_words = Some [\<lparr>w_word = Some ''Hello'', w_start = Some 0, w_end = Some 2\<rparr>,
                              \<lparr>w_word = Some ''world'', w_start = None, w_end = None\<rparr>]\<rparr>,
            \<lparr>ts_start = Some 5, ts_end = Some 10, ts_text = Some ''How are you'',
             ts_words = None\<rparr>]"
  let ?ivs = "[\<lparr>sd_start = Some 0, sd_end = Some 7, sd_speaker = Some ''SPEAKER_00''\<rparr>,
               \<lparr>sd_start = Some 7, sd_end = Some 15, sd_speaker = Some ''SPEAKER_01''\<rparr>]"
  let ?T = "\<lparr>t_file = Some ''a.mp3'', t_language = Some ''en'', t_segments = Some ?segs\<rparr>"
  let ?D = "\<lparr>d_num_speakers = Some 2, d_speakers = Some [''SPEAKER_00'', ''SPEAKER_01''],
             d_segments = Some ?ivs\<rparr>"
  have h7: "list_all segment_keys_present ?segs"
    by (simp add: segment_keys_present_def)
  have h8: "list_all interval_keys_present ?ivs"
    by (simp add: interval_keys_present_def)
  from merge_preserves_segments [of ?T "''a.mp3''" "''en''" ?segs ?D 2
      "[''SPEAKER_00'', ''SPEAKER_01'']" ?ivs None, OF _ _ _ _ _ _ h7 h8]
  obtain M saved where "merge_transcription_and_diarization ?T ?D None = Inr (M, saved)"
    and "length (mt_segments M) = length ?segs"
    by auto
  then show ?thesis by auto
qed

text \<open>
  C2 as stated fails: a transcription and a diarization that both contain \<open>segments\<close>,
  the transcription without the key \<open>file\<close>; the call raises \<open>KeyError\<close> when it builds
  the output.
\<close>

theorem merge_segments_only_counterexample:
  "t_segments \<lparr>t_file = None, t_language = Some ''en'', t_segments = Some []\<rparr> = Some []
   \<and> d_segments \<lparr>d_num_speakers = Some 0, d_speakers = Some [], d_segments = Some []\<rparr> = Some []
   \<and> merge_transcription_and_diarization
        \<lparr>t_file = None, t_language = Some ''en'', t_segments = Some []\<rparr>
        \<lparr>d_num_speakers = Some 0, d_speakers = Some [], d_segments = Some []\<rparr> None
      = Inl (KeyError ''file'')"
  by (simp add: merge_transcription_and_diarization_def)

text \<open>
  The keys inside matter as well: a segment without \<open>text\<close>, and an interval without
  \<open>speaker\<close> that overlaps a segment, raise \<open>KeyError\<close> with every key of the two
  arguments present.
\<close>

lemma merge_segment_without_text:
  "merge_transcription_and_diarization
     \<lparr>t_file = Some ''a'', t_language = Some ''en'',
      t_segments = Some [\<lparr>ts_start = Some 0, ts_end = Some 1, ts_text = None, ts_words = None\<rparr>]\<rparr>
     \<lparr>d_num_speakers = Some 0, d_speakers = Some [], d_segments = Some []\<rparr> None
   = Inl (KeyError ''text'')"
  by (simp add: merge_transcription_and_diarization_def merge_segment_def find_speaker_dicts_def)

lemma merge_interval_without_speaker:
  "merge_transcription_and_diarization
     \<lparr>t_file = Some ''a'', t_language = Some ''en'',
      t_segments = Some [\<lparr>ts_start = Some 0, ts_end = Some 1, ts_text = Some ''hi'', ts_words = None\<rparr>]\<rparr>
     \<lparr>d_num_speakers = Some 1, d_speakers = Some [''A''],
      d_segments = Some [\<lparr>sd_start = Some 0, sd_end = Some 1, sd_speaker = None\<rparr>]\<rparr> None
   = Inl (KeyError ''speaker'')"
  by (simp add: merge_transcription_and_diarization_def merge_segment_def find_speaker_dicts_def)

text \<open>
  C8. When the key \<open>segments\<close> is absent from the transcription or from the diarization,
  the call raises \<open>KeyError\<close> for that key: the result is the error, with no merged
  transcript and no file written.
\<close>

theorem merge_missing_segments:
  "t_segments T = None \<or> d_segments D = None
     \<Longrightarrow> merge_transcription_and_diarization T D output_path = Inl (KeyError ''segments'')"
  by (auto simp: merge_transcription_and_diarization_def split: option.splits)

theorem merge_missing_segments_witness:
  "merge_transcription_and_diarization
     \<lparr>t_file = Some ''a.mp3'', t_language = Some ''en'', t_segments = None\<rparr>
     \<lparr>d_num_speakers = Some 0, d_speakers = Some [], d_segments = Some []\<rparr>
     (Some ''out.json'') = Inl (KeyError ''segments'')
   \<and> merge_transcription_and_diarization
     \<lparr>t_file = Some ''a.mp3'', t_language = Some ''en'', t_segments = Some []\<rparr>
     \<lparr>d_num_speakers = Some 0, d_speakers = Some [], d_segments = None\<rparr>
     (Some ''out.json'') = Inl (KeyError ''segments'')"
proof -
  have a: "t_segments \<lparr>t_file = Some ''a.mp3'', t_language = Some ''en'', t_segments = None\<rparr> = None"
    by simp
  have b: "d_segments \<lparr>d_num_speakers = Some 0, d_speakers = Some [], d_segments = None\<rparr> = None"
    by simp
  show ?thesis
    using merge_missing_segments [OF disjI1 [OF a]] merge_missing_segments [OF disjI2 [OF b]]
    by blast
qed

section \<open>Properties of the timestamp utilities\<close>

text \<open>
  C5. The round trip is not within one millisecond for every \<open>x \<ge> 0\<close>: the clock string
  is built from the \<open>seconds\<close> attribute of the \<open>timedelta\<close>, which leaves the days out,
  so 86400 seconds (one day) are written \<open>00:00:00.000\<close> and read back as 0.
\<close>

theorem timestamp_round_trip_one_day:
  "seconds_to_timestamp 86400 True = ''00:00:00.000''
   \<and> timestamp_to_seconds (seconds_to_timestamp 86400 True) = Inr 0
   \<and> \<not> \<bar>0 - 86400\<bar> \<le> (1 / 1000 :: rat)"
  by code_simp

text \<open>
  The seconds come from the \<open>timedelta\<close>, which rounds to the nearest microsecond, the
  milliseconds from the truncated fraction of the argument: just below a whole second
  the two disagree, and the round trip is off by a second.
\<close>

lemma timestamp_round_trip_below_second:
  "seconds_to_timestamp (33554431 / 16777216) True = ''00:00:02.999''
   \<and> timestamp_to_seconds (seconds_to_timestamp (33554431 / 16777216) True) = Inr (2999 / 1000)
   \<and> \<not> \<bar>2999 / 1000 - 33554431 / 16777216\<bar> \<le> (1 / 1000 :: rat)"
  by code_simp

section \<open>Properties of the duration-based chunker\<close>

text \<open>\<open>strip\<close> leaves nothing exactly when every character is whitespace.\<close>

lemma py_strip_eq_Nil: "py_strip s = [] \<longleftrightarrow> (\<forall>c\<in>set s. py_isspace c)"
proof
  assume "py_strip s = []"
  then have a: "\<forall>c\<in>set (dropWhile py_isspace s). py_isspace c"
    by (simp add: py_strip_def dropWhile_eq_Nil_conv)
  have "dropWhile py_isspace s = []"
  proof (rule ccontr)
    assume n: "dropWhile py_isspace s \<noteq> []"
    then have "\<not> py_isspace (hd (dropWhile py_isspace s))" by (rule hd_dropWhile)
    moreover have "hd (dropWhile py_isspace s) \<in> set (dropWhile py_isspace s)"
      using n by simp
    ultimately show False using a by blast
  qed
  then show "\<forall>c\<in>set s. py_isspace c" by (simp add: dropWhile_eq_Nil_conv)
next
  assume "\<forall>c\<in>set s. py_isspace c"
  then have d: "dropWhile py_isspace s = []" by (simp add: dropWhile_eq_Nil_conv)
  show "py_strip s = []" unfolding py_strip_def d by simp
qed

lemma py_strip_Nil: "py_strip [] = []"
  by (simp add: py_strip_def)

text \<open>The equations that evaluate the chunkers on a concrete transcript.\<close>

lemmas chunk_eval =
  chunk_transcript_def chunk_accumulate_def chunk_step_def Let_def py_or_def initial_chunk_def
  final_chunk_kept_def speaker_of_def format_chunk_def py_strip_eq_Nil py_isspace_def
  CHUNK_DURATION_def CHUNK_OVERLAP_def

lemmas turn_eval =
  chunk_by_speaker_turns_def turn_step_def Let_def initial_turn_def speaker_of_def
  format_turn_def py_strip_eq_Nil py_isspace_def

subsection \<open>The loop\<close>

lemma chunk_step_cases:
  assumes "chunk_step cd co m segs (chunks, cur) idx seg = (chunks', cur')"
  defines "st \<equiv> (case ca_start cur of None \<Rightarrow> seg_start seg | Some v \<Rightarrow> v)"
  shows "ca_end cur' = Some (seg_end seg)
       \<and> ((chunks' = chunks \<and> ca_start cur' = Some st
            \<and> ca_text cur' = ca_text cur @ '' '' @ seg_text seg)
          \<or> (\<exists>c. chunks' = chunks @ [c] \<and> ca_start c = Some st \<and> ca_end c = Some (seg_end seg)
                \<and> ca_text c = ca_text cur
                \<and> ca_start cur' = Some (seg_end seg - co) \<and> cd < seg_end seg - st
                \<and> m \<le> int (length (ca_text cur))))"
  using assms(1) unfolding st_def chunk_step_def Let_def
  by (auto split: if_splits prod.splits)

lemma chunk_step_ordered:
  assumes "co \<le> cd" and "successively start_lt (chunks @ [cur])"
    and "chunk_step cd co m segs (chunks, cur) idx seg = (chunks', cur')"
  shows "successively start_lt (chunks' @ [cur'])"
proof -
  let ?st = "case ca_start cur of None \<Rightarrow> seg_start seg | Some v \<Rightarrow> v"
  have prev: "chunks \<noteq> [] \<Longrightarrow> \<exists>x. ca_start (last chunks) = Some x \<and> x < ?st"
    using assms(2) by (auto simp: successively_append_iff start_lt_def split: option.splits)
  from chunk_step_cases [OF assms(3)] consider
    (keep) "chunks' = chunks" "ca_start cur' = Some ?st"
  | (flush) c where "chunks' = chunks @ [c]" "ca_start c = Some ?st"
      "ca_start cur' = Some (seg_end seg - co)" "cd < seg_end seg - ?st"
    by blast
  then show ?thesis
  proof cases
    case keep
    then show ?thesis using assms(2) prev
      by (auto simp: successively_append_iff start_lt_def split: option.splits)
  next
    case flush
    have "?st < seg_end seg - co" using flush(4) assms(1) by linarith
    then show ?thesis using flush assms(2) prev
      by (auto simp: successively_append_iff start_lt_def split: option.splits)
  qed
qed

lemma chunk_step_closed:
  assumes "\<forall>c\<in>set chunks. closed c"
    and "chunk_step cd co m segs (chunks, cur) idx seg = (chunks', cur')"
  shows "(\<forall>c\<in>set chunks'. closed c) \<and> closed cur'"
  using chunk_step_cases [OF assms(2)] assms(1)
  by (auto simp: closed_def)

lemma chunk_loop_ordered:
  assumes "co \<le> cd" and "successively start_lt (chunks @ [cur])"
    and "chunk_loop cd co m segs idx rest (chunks, cur) = (chunks', cur')"
  shows "successively start_lt (chunks' @ [cur'])"
  using assms(2,3)
proof (induction rest arbitrary: idx chunks cur)
  case Nil
  then show ?case by simp
next
  case (Cons seg rest)
  obtain c1 cur1 where s: "chunk_step cd co m segs (chunks, cur) idx seg = (c1, cur1)"
    by (cases "chunk_step cd co m segs (chunks, cur) idx seg")
  from chunk_step_ordered [OF assms(1) Cons.prems(1) s]
  have "successively start_lt (c1 @ [cur1])" .
  moreover have "chunk_loop cd co m segs (Suc idx) rest (c1, cur1) = (chunks', cur')"
    using Cons.prems(2) s by simp
  ultimately show ?case by (rule Cons.IH)
qed

lemma chunk_loop_closed:
  assumes "\<forall>c\<in>set chunks. closed c"
    and "chunk_loop cd co m segs idx rest (chunks, cur) = (chunks', cur')"
  shows "(\<forall>c\<in>set chunks'. closed c) \<and> (rest \<noteq> [] \<longrightarrow> closed cur')
         \<and> (rest \<noteq> [] \<longrightarrow> ca_end cur' = Some (seg_end (last rest)))"
  using assms
proof (induction rest arbitrary: idx chunks cur)
  case Nil
  then show ?case by simp
next
  case (Cons seg rest)
  obtain c1 cur1 where s: "chunk_step cd co m segs (chunks, cur) idx seg = (c1, cur1)"
    by (cases "chunk_step cd co m segs (chunks, cur) idx seg")
  from chunk_step_closed [OF Cons.prems(1) s]
  have c: "\<forall>c\<in>set c1. closed c" "closed cur1" by auto
  have e: "ca_end cur1 = Some (seg_end seg)" using chunk_step_cases [OF s] by blast
  have l: "chunk_loop cd co m segs (Suc idx) rest (c1, cur1) = (chunks', cur')"
    using Cons.prems(2) s by simp
  from Cons.IH [OF c(1) l] show ?case
    using c(2) e l by (cases rest) auto
qed

lemma format_chunks_closed:
  assumes "\<forall>c\<in>set cs. closed c"
  shows "\<exists>out. format_chunks ep i cs acc = Inr (acc @ out) \<and> length out = length cs
           \<and> (\<forall>k<length cs. ca_start (cs ! k) = Some (ch_start (out ! k))
                 \<and> ca_end (cs ! k) = Some (ch_end (out ! k))
                 \<and> ch_text (out ! k) = py_strip (ca_text (cs ! k))
                 \<and> ch_chunk_id (out ! k) = i + k
                 \<and> ch_num_segments (out ! k) = length (ca_segment_indices (cs ! k)))"
  using assms
proof (induction cs arbitrary: i acc)
  case Nil
  then show ?case by simp
next
  case (Cons c cs)
  from Cons.prems obtain s e where se: "ca_start c = Some s" "ca_end c = Some e"
    by (auto simp: closed_def)
  define f where "f = \<lparr>ch_chunk_id = i, ch_text = py_strip (ca_text c), ch_start = s, ch_end = e,
               ch_timestamp_start = seconds_to_timestamp s True,
               ch_timestamp_end = seconds_to_timestamp e True,
               ch_duration = py_round (e - s) 2, ch_speakers = ca_speakers c,
               ch_episode = ep, ch_num_segments = length (ca_segment_indices c)\<rparr>"
  have fc: "format_chunk ep i c = Inr f"
    by (simp add: format_chunk_def se f_def)
  from Cons.prems have "\<forall>c\<in>set cs. closed c" by simp
  from Cons.IH [OF this, of "Suc i" "acc @ [f]"] obtain out where out:
    "format_chunks ep (Suc i) cs (acc @ [f]) = Inr ((acc @ [f]) @ out)" "length out = length cs"
    "\<forall>k<length cs. ca_start (cs ! k) = Some (ch_start (out ! k))
                 \<and> ca_end (cs ! k) = Some (ch_end (out ! k))
                 \<and> ch_text (out ! k) = py_strip (ca_text (cs ! k))
                 \<and> ch_chunk_id (out ! k) = Suc i + k
                 \<and> ch_num_segments (out ! k) = length (ca_segment_indices (cs ! k))"
    by blast
  have "format_chunks ep i (c # cs) acc = Inr (acc @ (f # out))"
    using fc out(1) by simp
  moreover have "length (f # out) = length (c # cs)" using out(2) by simp
  moreover have "\<forall>k<length (c # cs). ca_start ((c # cs) ! k) = Some (ch_start ((f # out) ! k))
                 \<and> ca_end ((c # cs) ! k) = Some (ch_end ((f # out) ! k))
                 \<and> ch_text ((f # out) ! k) = py_strip (ca_text ((c # cs) ! k))
                 \<and> ch_chunk_id ((f # out) ! k) = i + k
                 \<and> ch_num_segments ((f # out) ! k) = length (ca_segment_indices ((c # cs) ! k))"
  proof (intro allI impI)
    fix k assume k: "k < length (c # cs)"
    show "ca_start ((c # cs) ! k) = Some (ch_start ((f # out) ! k))
                 \<and> ca_end ((c # cs) ! k) = Some (ch_end ((f # out) ! k))
                 \<and> ch_text ((f # out) ! k) = py_strip (ca_text ((c # cs) ! k))
                 \<and> ch_chunk_id ((f # out) ! k) = i + k
                 \<and> ch_num_segments ((f # out) ! k) = length (ca_segment_indices ((c # cs) ! k))"
    proof (cases k)
      case 0
      then show ?thesis by (simp add: se f_def)
    next
      case (Suc k')
      with k out(3) show ?thesis by simp
    qed
  qed
  ultimately show ?case by blast
qed

lemma chunk_step_chain:
  assumes "0 \<le> co" and "successively touches (chunks @ [cur])"
    and "chunk_step cd co m segs (chunks, cur) idx seg = (chunks', cur')"
  shows "successively touches (chunks' @ [cur'])"
proof -
  let ?st = "case ca_start cur of None \<Rightarrow> seg_start seg | Some v \<Rightarrow> v"
  have prev: "chunks \<noteq> [] \<Longrightarrow> \<exists>e. ca_end (last chunks) = Some e \<and> ?st \<le> e"
    using assms(2) by (auto simp: successively_append_iff touches_def split: option.splits)
  from chunk_step_cases [OF assms(3)] consider
    (keep) "chunks' = chunks" "ca_start cur' = Some ?st"
  | (flush) c where "chunks' = chunks @ [c]" "ca_start c = Some ?st"
      "ca_end c = Some (seg_end seg)" "ca_start cur' = Some (seg_end seg - co)"
    by blast
  then show ?thesis
  proof cases
    case keep
    then show ?thesis using assms(2) prev
      by (auto simp: successively_append_iff touches_def split: option.splits)
  next
    case flush
    then show ?thesis using assms(1,2) prev
      by (auto simp: successively_append_iff touches_def split: option.splits)
  qed
qed

lemma chunk_step_first:
  assumes "ca_start (hd (chunks @ [cur])) = Some S"
    and "chunk_step cd co m segs (chunks, cur) idx seg = (chunks', cur')"
  shows "ca_start (hd (chunks' @ [cur'])) = Some S"
  using chunk_step_cases [OF assms(2)] assms(1)
  by (cases chunks) auto

lemma chunk_loop_chain:
  assumes "0 \<le> co" and "successively touches (chunks @ [cur])"
    and "ca_start (hd (chunks @ [cur])) = Some S"
    and "chunk_loop cd co m segs idx rest (chunks, cur) = (chunks', cur')"
  shows "successively touches (chunks' @ [cur']) \<and> ca_start (hd (chunks' @ [cur'])) = Some S"
  using assms(2,3,4)
proof (induction rest arbitrary: idx chunks cur)
  case Nil
  then show ?case by simp
next
  case (Cons seg rest)
  obtain c1 cur1 where s: "chunk_step cd co m segs (chunks, cur) idx seg = (c1, cur1)"
    by (cases "chunk_step cd co m segs (chunks, cur) idx seg")
  have a: "successively touches (c1 @ [cur1])"
    by (rule chunk_step_chain [OF assms(1) Cons.prems(1) s])
  have b: "ca_start (hd (c1 @ [cur1])) = Some S"
    by (rule chunk_step_first [OF Cons.prems(2) s])
  have "chunk_loop cd co m segs (Suc idx) rest (c1, cur1) = (chunks', cur')"
    using Cons.prems(3) s by simp
  from Cons.IH [OF a b this] show ?case .
qed

lemma chain_covers:
  assumes "successively touches L" and "L \<noteq> []"
    and "ca_start (hd L) = Some S" and "ca_end (last L) = Some E" and "S \<le> t" and "t < E"
  shows "\<exists>c\<in>set L. \<exists>s e. ca_start c = Some s \<and> ca_end c = Some e \<and> s \<le> t \<and> t < e"
  using assms(1,2,3,4,5)
proof (induction L arbitrary: S)
  case Nil
  then show ?case by simp
next
  case (Cons c L)
  show ?case
  proof (cases L)
    case Nil
    with Cons.prems assms(6) show ?thesis by auto
  next
    case (Cons d r)
    with Cons.prems(1) have t: "touches c d" and sc: "successively touches L" by auto
    from t obtain e s' where e: "ca_end c = Some e" "ca_start d = Some s'" "s' \<le> e"
      by (auto simp: touches_def split: option.splits)
    show ?thesis
    proof (cases "t < e")
      case True
      with e(1) Cons.prems(3,5) show ?thesis by auto
    next
      case False
      then have "s' \<le> t" using e(3) by simp
      moreover have "ca_start (hd L) = Some s'" using Cons e(2) by simp
      moreover have "L \<noteq> []" using Cons by simp
      moreover have "ca_end (last L) = Some E" using Cons.prems(4) Cons by simp
      ultimately have "\<exists>c\<in>set L. \<exists>s e. ca_start c = Some s \<and> ca_end c = Some e \<and> s \<le> t \<and> t < e"
        using Cons.IH [OF sc] by blast
      then show ?thesis by auto
    qed
  qed
qed

text \<open>The state after the loop, for a transcript with segments.\<close>

lemma chunk_accumulate_state:
  assumes "tr_segments tr = Some segs" and "segs \<noteq> []"
    and "chunk_accumulate tr cd co m = (chunks, cur)"
  shows "(\<forall>c\<in>set chunks. closed c) \<and> closed cur \<and> ca_end cur = Some (seg_end (last segs))"
proof -
  have l: "chunk_loop (py_or cd CHUNK_DURATION) (py_or co CHUNK_OVERLAP) m segs 0 segs
             ([], initial_chunk) = (chunks, cur)"
    using assms(1,3) by (simp add: chunk_accumulate_def)
  have "\<forall>c\<in>set ([]::chunk_acc list). closed c" by simp
  from chunk_loop_closed [OF this l] assms(2) show ?thesis by simp
qed

lemma chunk_accumulate_ordered:
  assumes "py_or co CHUNK_OVERLAP \<le> py_or cd CHUNK_DURATION"
    and "chunk_accumulate tr cd co m = (chunks, cur)"
  shows "successively start_lt (chunks @ [cur])"
proof -
  have l: "chunk_loop (py_or cd CHUNK_DURATION) (py_or co CHUNK_OVERLAP) m
             (case tr_segments tr of None \<Rightarrow> [] | Some v \<Rightarrow> v) 0
             (case tr_segments tr of None \<Rightarrow> [] | Some v \<Rightarrow> v)
             ([], initial_chunk) = (chunks, cur)"
    using assms(2) by (simp add: chunk_accumulate_def Let_def)
  have "successively start_lt ([] @ [initial_chunk])" by simp
  from chunk_loop_ordered [OF assms(1) this l] show ?thesis .
qed

lemma chunk_accumulate_chain:
  assumes "tr_segments tr = Some segs" and "segs \<noteq> []"
    and "0 \<le> py_or co CHUNK_OVERLAP"
    and "chunk_accumulate tr cd co m = (chunks, cur)"
  shows "successively touches (chunks @ [cur])
         \<and> ca_start (hd (chunks @ [cur])) = Some (seg_start (hd segs))"
proof -
  let ?cd = "py_or cd CHUNK_DURATION" and ?co = "py_or co CHUNK_OVERLAP"
  from assms(2) obtain s0 rest where segs: "segs = s0 # rest" by (cases segs) auto
  obtain c1 cur1 where s: "chunk_step ?cd ?co m segs ([], initial_chunk) 0 s0 = (c1, cur1)"
    by (cases "chunk_step ?cd ?co m segs ([], initial_chunk) 0 s0")
  have l: "chunk_loop ?cd ?co m segs (Suc 0) rest (c1, cur1) = (chunks, cur)"
    using assms(1,4) segs s by (simp add: chunk_accumulate_def)
  have "successively touches ([] @ [initial_chunk])" by simp
  from chunk_step_chain [OF assms(3) this s]
  have a: "successively touches (c1 @ [cur1])" .
  have b: "ca_start (hd (c1 @ [cur1])) = Some (seg_start (hd segs))"
    using chunk_step_cases [OF s] segs by (auto simp: initial_chunk_def)
  from chunk_loop_chain [OF assms(3) a b l] show ?thesis .
qed

lemma chunk_transcript_formats:
  assumes "tr_segments tr = Some segs" and "segs \<noteq> []"
    and "chunk_accumulate tr cd co m = (chunks, cur)"
  shows "chunk_transcript tr cd co m
           = format_chunks (case tr_file tr of None \<Rightarrow> ''unknown'' | Some v \<Rightarrow> v) 0
               (if final_chunk_kept cur m then chunks @ [cur] else chunks) []"
  using assms by (simp add: chunk_transcript_def)

subsection \<open>Time order of the chunks\<close>

text \<open>
  C3 (as amended). For every transcript and every \<open>chunk_duration\<close> and \<open>chunk_overlap\<close>
  whose effective values (after the fallback to the configured defaults) satisfy
  overlap \<open>\<le>\<close> duration, \<open>chunk_transcript\<close> returns a chunk list that is time-ordered:
  \<open>chunks[i].start \<le> chunks[i+1].start\<close> for every valid index.
\<close>

theorem chunk_transcript_time_ordered:
  assumes "py_or chunk_overlap CHUNK_OVERLAP \<le> py_or chunk_duration CHUNK_DURATION"
  shows "\<exists>cs. chunk_transcript tr chunk_duration chunk_overlap m = Inr cs
           \<and> (\<forall>i. Suc i < length cs \<longrightarrow> ch_start (cs ! i) \<le> ch_start (cs ! Suc i))"
proof (cases "tr_segments tr = None \<or> tr_segments tr = Some []")
  case True
  then have "chunk_transcript tr chunk_duration chunk_overlap m = Inr []"
    by (auto simp: chunk_transcript_def)
  then show ?thesis by simp
next
  case False
  then obtain segs where segs: "tr_segments tr = Some segs" "segs \<noteq> []" by auto
  obtain chunks cur where acc: "chunk_accumulate tr chunk_duration chunk_overlap m = (chunks, cur)"
    by (cases "chunk_accumulate tr chunk_duration chunk_overlap m")
  let ?L = "if final_chunk_kept cur m then chunks @ [cur] else chunks"
  from chunk_accumulate_state [OF segs acc] have cl: "\<forall>c\<in>set ?L. closed c" by auto
  from chunk_accumulate_ordered [OF assms acc] have "successively start_lt (chunks @ [cur])" .
  then have ord: "successively start_lt ?L" by (auto simp: successively_append_iff)
  from format_chunks_closed [OF cl, of "case tr_file tr of None \<Rightarrow> ''unknown'' | Some v \<Rightarrow> v" 0 "[]"]
  obtain out where out:
    "format_chunks (case tr_file tr of None \<Rightarrow> ''unknown'' | Some v \<Rightarrow> v) 0 ?L [] = Inr out"
    "length out = length ?L"
    "\<forall>k<length ?L. ca_start (?L ! k) = Some (ch_start (out ! k))"
    by auto
  have "ch_start (out ! i) \<le> ch_start (out ! Suc i)" if i: "Suc i < length out" for i
  proof -
    from i out(2) have "Suc i < length ?L" by simp
    from successively_nth [OF ord this] have "start_lt (?L ! i) (?L ! Suc i)" .
    moreover have "ca_start (?L ! i) = Some (ch_start (out ! i))"
      and "ca_start (?L ! Suc i) = Some (ch_start (out ! Suc i))"
      using out(3) i out(2) by auto
    ultimately show ?thesis by (simp add: start_lt_def)
  qed
  then show ?thesis
    using chunk_transcript_formats [OF segs acc] out(1) by auto
qed

theorem chunk_transcript_time_ordered_witness:
  "py_or (Some 5) CHUNK_OVERLAP \<le> py_or (Some 10) CHUNK_DURATION
   \<and> (\<exists>cs. chunk_transcript
          \<lparr>tr_file = Some ''ep'',
           tr_segments = Some
             [\<lparr>seg_start = 0, seg_end = 20, seg_text = replicate 50 CHR ''a'', seg_speaker = Some ''A''\<rparr>,
              \<lparr>seg_start = 20, seg_end = 40, seg_text = replicate 50 CHR ''a'', seg_speaker = Some ''B''\<rparr>]\<rparr>
          (Some 10) (Some 5) 50 = Inr cs
        \<and> map ch_start cs = [0, 35] \<and> ch_start (cs ! 0) \<le> ch_start (cs ! Suc 0))"
proof -
  let ?tr = "\<lparr>tr_file = Some ''ep'',
           tr_segments = Some
             [\<lparr>seg_start = 0, seg_end = 20, seg_text = replicate 50 CHR ''a'', seg_speaker = Some ''A''\<rparr>,
              \<lparr>seg_start = 20, seg_end = 40, seg_text = replicate 50 CHR ''a'', seg_speaker = Some ''B''\<rparr>]\<rparr>"
  have h: "py_or (Some 5) CHUNK_OVERLAP \<le> py_or (Some 10) CHUNK_DURATION"
    by (simp add: py_or_def)
  have e: "map_sum id (map ch_start) (chunk_transcript ?tr (Some 10) (Some 5) 50) = Inr [0, 35]"
    by (simp add: chunk_eval)
  from chunk_transcript_time_ordered [OF h, of ?tr 50] obtain cs where
    cs: "chunk_transcript ?tr (Some 10) (Some 5) 50 = Inr cs"
    and ord: "\<forall>i. Suc i < length cs \<longrightarrow> ch_start (cs ! i) \<le> ch_start (cs ! Suc i)"
    by blast
  from e cs have m: "map ch_start cs = [0, 35]" by simp
  then have "length cs = 2" using length_map [of ch_start cs] by simp
  with ord have o: "ch_start (cs ! 0) \<le> ch_start (cs ! Suc 0)" by simp
  from cs m o have "\<exists>cs. chunk_transcript ?tr (Some 10) (Some 5) 50 = Inr cs
        \<and> map ch_start cs = [0, 35] \<and> ch_start (cs ! 0) \<le> ch_start (cs ! Suc 0)"
    by (intro exI [of _ cs] conjI)
  with h show ?thesis by (rule conjI)
qed

text \<open>
  C3 as stated fails when the overlap exceeds the duration: the chunk opened at a flush
  starts at \<open>segment_end - chunk_overlap\<close>, here at 40 - 100, before the first chunk.
\<close>

theorem chunk_transcript_overlap_exceeds_duration_counterexample:
  "map_sum id (map ch_start)
     (chunk_transcript
        \<lparr>tr_file = Some ''ep'',
         tr_segments = Some
           [\<lparr>seg_start = 0, seg_end = 20, seg_text = replicate 50 CHR ''a'', seg_speaker = Some ''A''\<rparr>,
            \<lparr>seg_start = 20, seg_end = 40, seg_text = replicate 50 CHR ''a'', seg_speaker = Some ''B''\<rparr>]\<rparr>
        (Some 10) (Some 100) 50) = Inr [0, - 60]"
  by (simp add: chunk_eval)

subsection \<open>Coverage of the transcript's span\<close>

text \<open>
  C4 (as amended). For every transcript with a non-empty segments list, when the
  effective \<open>chunk_overlap\<close> is not negative and the accumulator left at the end of the
  stream is kept as the final chunk, the windows \<open>[chunk.start, chunk.end)\<close> of the
  returned chunks cover \<open>[first_segment.start, last_segment.end)\<close> with no gap.
\<close>

theorem chunk_transcript_covers_span:
  assumes "tr_segments tr = Some segs" and "segs \<noteq> []"
    and "0 \<le> py_or chunk_overlap CHUNK_OVERLAP"
    and "final_chunk_kept (snd (chunk_accumulate tr chunk_duration chunk_overlap m)) m"
  shows "\<exists>cs. chunk_transcript tr chunk_duration chunk_overlap m = Inr cs
           \<and> (\<forall>t. seg_start (hd segs) \<le> t \<and> t < seg_end (last segs)
                  \<longrightarrow> (\<exists>c\<in>set cs. ch_start c \<le> t \<and> t < ch_end c))"
proof -
  obtain chunks cur where acc: "chunk_accumulate tr chunk_duration chunk_overlap m = (chunks, cur)"
    by (cases "chunk_accumulate tr chunk_duration chunk_overlap m")
  let ?L = "chunks @ [cur]"
  have kept: "final_chunk_kept cur m" using assms(4) acc by simp
  from chunk_accumulate_state [OF assms(1,2) acc]
  have cl: "\<forall>c\<in>set ?L. closed c" and en: "ca_end (last ?L) = Some (seg_end (last segs))" by auto
  from chunk_accumulate_chain [OF assms(1,2,3) acc]
  have ch: "successively touches ?L" and fs: "ca_start (hd ?L) = Some (seg_start (hd segs))"
    by auto
  from format_chunks_closed [OF cl, of "case tr_file tr of None \<Rightarrow> ''unknown'' | Some v \<Rightarrow> v" 0 "[]"]
  obtain out where out:
    "format_chunks (case tr_file tr of None \<Rightarrow> ''unknown'' | Some v \<Rightarrow> v) 0 ?L [] = Inr out"
    "length out = length ?L"
    "\<forall>k<length ?L. ca_start (?L ! k) = Some (ch_start (out ! k))
        \<and> ca_end (?L ! k) = Some (ch_end (out ! k))"
    by auto
  have "\<exists>c\<in>set out. ch_start c \<le> t \<and> t < ch_end c"
    if t: "seg_start (hd segs) \<le> t" "t < seg_end (last segs)" for t
  proof -
    have ne: "?L \<noteq> []" by simp
    from chain_covers [OF ch ne fs en t] obtain c s e where c:
      "c \<in> set ?L" "ca_start c = Some s" "ca_end c = Some e" "s \<le> t" "t < e"
      by blast
    from c(1) obtain k where k: "k < length ?L" "?L ! k = c"
      unfolding in_set_conv_nth by blast
    with out(3) c(2,3) have "ch_start (out ! k) = s" "ch_end (out ! k) = e" by auto
    moreover have "out ! k \<in> set out" using k(1) out(2) by simp
    ultimately show ?thesis using c(4,5) by blast
  qed
  then show ?thesis
    using chunk_transcript_formats [OF assms(1,2) acc] out(1) kept by auto
qed

theorem chunk_transcript_covers_span_witness:
  "final_chunk_kept
     (snd (chunk_accumulate
        \<lparr>tr_file = Some ''ep'',
         tr_segments = Some
           [\<lparr>seg_start = 0, seg_end = 20, seg_text = replicate 50 CHR ''a'', seg_speaker = Some ''A''\<rparr>,
            \<lparr>seg_start = 20, seg_end = 40, seg_text = replicate 50 CHR ''a'', seg_speaker = Some ''B''\<rparr>]\<rparr>
        (Some 10) (Some 5) 50)) 50
   \<and> (\<exists>cs. chunk_transcript
          \<lparr>tr_file = Some ''ep'',
           tr_segments = Some
             [\<lparr>seg_start = 0, seg_end = 20, seg_text = replicate 50 CHR ''a'', seg_speaker = Some ''A''\<rparr>,
              \<lparr>seg_start = 20, seg_end = 40, seg_text = replicate 50 CHR ''a'', seg_speaker = Some ''B''\<rparr>]\<rparr>
          (Some 10) (Some 5) 50 = Inr cs
        \<and> (\<exists>c\<in>set cs. ch_start c \<le> 37 \<and> 37 < ch_end c))"
proof -
  let ?segs = "[\<lparr>seg_start = 0, seg_end = 20, seg_text = replicate 50 CHR ''a'', seg_speaker = Some ''A''\<rparr>,
              \<lparr>seg_start = 20, seg_end = 40, seg_text = replicate 50 CHR ''a'', seg_speaker = Some ''B''\<rparr>]"
  let ?tr = "\<lparr>tr_file = Some ''ep'', tr_segments = Some ?segs\<rparr>"
  have h1: "tr_segments ?tr = Some ?segs" by simp
  have h2: "?segs \<noteq> []" by simp
  have h3: "0 \<le> py_or (Some 5) CHUNK_OVERLAP" by (simp add: py_or_def)
  have h4: "final_chunk_kept (snd (chunk_accumulate ?tr (Some 10) (Some 5) 50)) 50"
    by (simp add: chunk_eval)
  from chunk_transcript_covers_span [OF h1 h2 h3 h4] obtain cs where
    cs: "chunk_transcript ?tr (Some 10) (Some 5) 50 = Inr cs"
    and cov: "\<forall>t. seg_start (hd ?segs) \<le> t \<and> t < seg_end (last ?segs)
                \<longrightarrow> (\<exists>c\<in>set cs. ch_start c \<le> t \<and> t < ch_end c)"
    by blast
  from cov [rule_format, of 37] have "\<exists>c\<in>set cs. ch_start c \<le> 37 \<and> 37 < ch_end c" by simp
  with cs have "\<exists>cs. chunk_transcript ?tr (Some 10) (Some 5) 50 = Inr cs
        \<and> (\<exists>c\<in>set cs. ch_start c \<le> 37 \<and> 37 < ch_end c)"
    by (intro exI [of _ cs] conjI)
  with h4 show ?thesis by (rule conjI)
qed

text \<open>
  C4 as stated fails for a short transcript: the only accumulator holds 6 characters,
  fewer than \<open>min_chunk_size = 50\<close>, it is dropped and no chunk covers \<open>[0, 5)\<close>.
\<close>

theorem chunk_transcript_short_transcript_counterexample:
  "chunk_transcript
     \<lparr>tr_file = Some ''ep'',
      tr_segments = Some [\<lparr>seg_start = 0, seg_end = 5, seg_text = ''Hello'', seg_speaker = Some ''A''\<rparr>]\<rparr>
     None None 50 = Inr []"
  by (simp add: chunk_eval)

text \<open>
  With a negative overlap the next chunk starts after the end of the closed one: the
  chunks are \<open>[0, 20)\<close> and \<open>[25, 30)\<close>, and \<open>[20, 25)\<close> is not covered.
\<close>

lemma chunk_transcript_negative_overlap_gap:
  "map_sum id (map (\<lambda>c. (ch_start c, ch_end c)))
     (chunk_transcript
        \<lparr>tr_file = Some ''ep'',
         tr_segments = Some
           [\<lparr>seg_start = 0, seg_end = 10, seg_text = replicate 60 CHR ''a'', seg_speaker = Some ''A''\<rparr>,
            \<lparr>seg_start = 10, seg_end = 20, seg_text = replicate 60 CHR ''a'', seg_speaker = Some ''A''\<rparr>,
            \<lparr>seg_start = 20, seg_end = 30, seg_text = replicate 60 CHR ''a'', seg_speaker = Some ''A''\<rparr>]\<rparr>
        (Some 5) (Some (- 5)) 50) = Inr [(0, 20), (25, 30)]"
  by (simp add: chunk_eval)

subsection \<open>The final chunk\<close>

text \<open>
  C7 (as amended). After the segment stream ends, \<open>chunk_transcript\<close> emits the
  remaining accumulator as the final chunk if and only if its text is not blank (it has
  a character that is not whitespace) and has at least \<open>min_chunk_size\<close> characters,
  counted before trimming; otherwise the accumulator is dropped and the chunks closed
  in the loop are returned alone.
\<close>

theorem chunk_transcript_final_chunk:
  assumes "tr_segments tr = Some segs" and "segs \<noteq> []"
    and "chunk_accumulate tr chunk_duration chunk_overlap m = (chunks, current_chunk)"
  shows "\<exists>cs. chunk_transcript tr chunk_duration chunk_overlap m = Inr cs
           \<and> (if py_strip (ca_text current_chunk) \<noteq> []
                  \<and> m \<le> int (length (ca_text current_chunk))
               then length cs = length chunks + 1
                    \<and> ch_text (last cs) = py_strip (ca_text current_chunk)
                    \<and> ch_end (last cs) = seg_end (last segs)
               else length cs = length chunks)"
proof -
  let ?L = "if final_chunk_kept current_chunk m then chunks @ [current_chunk] else chunks"
  from chunk_accumulate_state [OF assms]
  have cl: "\<forall>c\<in>set ?L. closed c"
    and en: "ca_end current_chunk = Some (seg_end (last segs))" by auto
  from format_chunks_closed [OF cl, of "case tr_file tr of None \<Rightarrow> ''unknown'' | Some v \<Rightarrow> v" 0 "[]"]
  obtain out where out:
    "format_chunks (case tr_file tr of None \<Rightarrow> ''unknown'' | Some v \<Rightarrow> v) 0 ?L [] = Inr out"
    "length out = length ?L"
    "\<forall>k<length ?L. ca_end (?L ! k) = Some (ch_end (out ! k))
        \<and> ch_text (out ! k) = py_strip (ca_text (?L ! k))"
    by auto
  have r: "chunk_transcript tr chunk_duration chunk_overlap m = Inr out"
    using chunk_transcript_formats [OF assms] out(1) by simp
  show ?thesis
  proof (cases "final_chunk_kept current_chunk m")
    case True
    then have len: "length out = length chunks + 1" using out(2) by simp
    then have "out \<noteq> []" by auto
    then have "last out = out ! length chunks" using len by (simp add: last_conv_nth)
    moreover have "ca_end (?L ! length chunks) = Some (ch_end (out ! length chunks))
        \<and> ch_text (out ! length chunks) = py_strip (ca_text (?L ! length chunks))"
      using out(3) [rule_format, of "length chunks"] True by simp
    ultimately have "ch_text (last out) = py_strip (ca_text current_chunk)"
      and "ch_end (last out) = seg_end (last segs)"
      using True en by auto
    with len True r show ?thesis by (auto simp: final_chunk_kept_def)
  next
    case False
    then have "length out = length chunks" using out(2) by simp
    with False r show ?thesis by (auto simp: final_chunk_kept_def)
  qed
qed

theorem chunk_transcript_final_chunk_witness:
  "\<exists>cs. chunk_transcript
          \<lparr>tr_file = Some ''ep'',
           tr_segments = Some
             [\<lparr>seg_start = 0, seg_end = 20, seg_text = replicate 50 CHR ''a'', seg_speaker = Some ''A''\<rparr>,
              \<lparr>seg_start = 20, seg_end = 40, seg_text = replicate 50 CHR ''a'', seg_speaker = Some ''B''\<rparr>]\<rparr>
          (Some 10) (Some 5) 50 = Inr cs
        \<and> length cs = 2 \<and> ch_end (last cs) = 40"
proof -
  let ?segs = "[\<lparr>seg_start = 0, seg_end = 20, seg_text = replicate 50 CHR ''a'', seg_speaker = Some ''A''\<rparr>,
              \<lparr>seg_start = 20, seg_end = 40, seg_text = replicate 50 CHR ''a'', seg_speaker = Some ''B''\<rparr>]"
  let ?tr = "\<lparr>tr_file = Some ''ep'', tr_segments = Some ?segs\<rparr>"
  let ?acc = "chunk_accumulate ?tr (Some 10) (Some 5) 50"
  have h1: "tr_segments ?tr = Some ?segs" by simp
  have h2: "?segs \<noteq> []" by simp
  have h3: "?acc = (fst ?acc, snd ?acc)" by simp
  have k: "py_strip (ca_text (snd ?acc)) \<noteq> [] \<and> 50 \<le> int (length (ca_text (snd ?acc)))"
    by (simp add: chunk_eval)
  have n: "length (fst ?acc) = 1"
    by (simp add: chunk_eval)
  from chunk_transcript_final_chunk [OF h1 h2 h3] k obtain cs where
    cs: "chunk_transcript ?tr (Some 10) (Some 5) 50 = Inr cs"
    and "length cs = length (fst ?acc) + 1"
    and "ch_end (last cs) = seg_end (last ?segs)"
    by auto
  then have "length cs = 2" and "ch_end (last cs) = 40" using n by simp_all
  with cs show ?thesis by (intro exI [of _ cs] conjI)
qed

text \<open>
  C7 as stated fails for blank trailing content: the accumulator holds 51 characters,
  at least \<open>min_chunk_size = 50\<close>, all of them spaces, and it is dropped.
\<close>

theorem chunk_transcript_blank_trailing_counterexample:
  "50 \<le> int (length (ca_text (snd (chunk_accumulate
      \<lparr>tr_file = Some ''ep'',
       tr_segments = Some [\<lparr>seg_start = 0, seg_end = 5, seg_text = replicate 50 CHR '' '',
                             seg_speaker = Some ''A''\<rparr>]\<rparr> None None 50))))
   \<and> chunk_transcript
       \<lparr>tr_file = Some ''ep'',
        tr_segments = Some [\<lparr>seg_start = 0, seg_end = 5, seg_text = replicate 50 CHR '' '',
                              seg_speaker = Some ''A''\<rparr>]\<rparr> None None 50 = Inr []"
  by (simp add: chunk_eval)

subsection \<open>Empty input and falsy arguments\<close>

text \<open>
  C9. For a transcript whose segments list is empty, or whose key \<open>segments\<close> is absent,
  \<open>chunk_transcript\<close> returns the empty list and raises no error, whatever the other
  arguments.
\<close>

theorem chunk_transcript_no_segments:
  "chunk_transcript \<lparr>tr_file = f, tr_segments = Some []\<rparr> chunk_duration chunk_overlap m = Inr []
   \<and> chunk_transcript \<lparr>tr_file = f, tr_segments = None\<rparr> chunk_duration chunk_overlap m = Inr []"
  by (simp add: chunk_transcript_def)


section \<open>Properties of the speaker-turn chunker\<close>

lemma run_text_snoc:
  assumes "run \<noteq> []" and "run_text run txt"
  shows "run_text (run @ [x]) (txt @ '' '' @ seg_text x)"
  using assms by (cases run) (auto simp: run_text_def spaced_texts_def)

lemma turn_built_closed:
  assumes "turn_built run c"
  shows "turn_built run (c\<lparr>ta_end := Some e\<rparr>)"
  using assms by (simp add: turn_built_def)

lemma turn_step_inv:
  assumes segs: "segs = processed @ x # rest"
    and inv: "turn_inv segs processed st"
  shows "turn_inv segs (processed @ [x]) (turn_step mtd ep st x)"
proof -
  obtain chunks sp cur where st: "st = (chunks, sp, cur)" by (cases st) auto
  from inv st have sp: "sp = ta_speaker cur"
    and ch: "\<forall>c\<in>set chunks. \<exists>pre run post. segs = pre @ run @ post \<and> turn_built run c"
    and cu: "(ta_text cur = [] \<and> ta_start cur = None)
               \<or> (\<exists>pre run. processed = pre @ run \<and> turn_built run cur)"
    by (auto simp: turn_inv_def)
  let ?flush = "(Some (speaker_of x) \<noteq> sp \<and> ta_text cur \<noteq> [])
             \<or> (case ta_start cur of None \<Rightarrow> False
                 | Some st0 \<Rightarrow> st0 \<noteq> 0 \<and> mtd < seg_end x - st0)"
  have new: "turn_built [x] \<lparr>ta_text = seg_text x, ta_start = Some (seg_start x),
                 ta_end = Some (seg_end x), ta_speaker = Some (speaker_of x),
                 ta_episode = Some ep\<rparr>"
    by (simp add: turn_built_def run_text_def spaced_texts_def)
  show ?thesis
  proof (cases ?flush)
    case True
    then have "\<not> (ta_text cur = [] \<and> ta_start cur = None)" by (auto split: option.splits)
    with cu obtain pre run where r: "processed = pre @ run" "turn_built run cur" by blast
    let ?closed = "cur\<lparr>ta_end := Some (case ta_end cur of None \<Rightarrow> seg_start x
                                  | Some e \<Rightarrow> if e \<noteq> 0 then e else seg_start x)\<rparr>"
    have "turn_built run ?closed" using r(2) by (rule turn_built_closed)
    moreover have "segs = pre @ run @ (x # rest)" using segs r(1) by simp
    ultimately have c: "\<exists>pre run post. segs = pre @ run @ post \<and> turn_built run ?closed"
      by blast
    have "processed @ [x] = processed @ [x]" ..
    with new have n: "\<exists>pre run. processed @ [x] = pre @ run
        \<and> turn_built run \<lparr>ta_text = seg_text x, ta_start = Some (seg_start x),
                 ta_end = Some (seg_end x), ta_speaker = Some (speaker_of x),
                 ta_episode = Some ep\<rparr>"
      by blast
    have step: "turn_step mtd ep st x
          = (chunks @ [?closed], Some (speaker_of x),
             \<lparr>ta_text = seg_text x, ta_start = Some (seg_start x),
                 ta_end = Some (seg_end x), ta_speaker = Some (speaker_of x),
                 ta_episode = Some ep\<rparr>)"
      using True by (simp add: turn_step_def st Let_def)
    show ?thesis unfolding step turn_inv_def using ch c n by simp
  next
    case False
    show ?thesis
    proof (cases "ta_text cur = []")
      case True
      let ?cur' = "cur\<lparr>ta_start := Some (seg_start x), ta_speaker := Some (speaker_of x),
                       ta_text := ta_text cur @ '' '' @ seg_text x, ta_end := Some (seg_end x)\<rparr>"
      have step: "turn_step mtd ep st x = (chunks, Some (speaker_of x), ?cur')"
        using False True by (simp add: turn_step_def st Let_def)
      have "turn_built [x] ?cur'"
        using True by (simp add: turn_built_def run_text_def spaced_texts_def)
      then have "\<exists>pre run. processed @ [x] = pre @ run \<and> turn_built run ?cur'" by blast
      then show ?thesis unfolding step turn_inv_def using ch by simp
    next
      case ne: False
      let ?cur' = "cur\<lparr>ta_text := ta_text cur @ '' '' @ seg_text x, ta_end := Some (seg_end x)\<rparr>"
      have step: "turn_step mtd ep st x = (chunks, sp, ?cur')"
        using False ne by (simp add: turn_step_def st Let_def)
      from cu ne obtain pre run where r: "processed = pre @ run" "turn_built run cur" by blast
      from False ne have same: "Some (speaker_of x) = sp" by auto
      from r(2) obtain l where l: "ta_speaker cur = Some l" "list_all (\<lambda>s. speaker_of s = l) run"
        by (auto simp: turn_built_def split: option.splits)
      with same sp have xl: "speaker_of x = l" by simp
      have "turn_built (run @ [x]) ?cur'"
        using r(2) l xl run_text_snoc [of run "ta_text cur" x]
        by (auto simp: turn_built_def)
      moreover have "processed @ [x] = pre @ (run @ [x])" using r(1) by simp
      ultimately have "\<exists>pre run. processed @ [x] = pre @ run \<and> turn_built run ?cur'" by blast
      then show ?thesis unfolding step turn_inv_def using ch sp by simp
    qed
  qed
qed

lemma turn_loop_inv:
  assumes "segs = processed @ rest" and "turn_inv segs processed st"
  shows "turn_inv segs segs (turn_loop mtd ep rest st)"
  using assms
proof (induction rest arbitrary: processed st)
  case Nil
  then show ?case by simp
next
  case (Cons x rest)
  from turn_step_inv [OF Cons.prems]
  have "turn_inv segs (processed @ [x]) (turn_step mtd ep st x)" .
  moreover have "segs = (processed @ [x]) @ rest" using Cons.prems(1) by simp
  ultimately have "turn_inv segs segs (turn_loop mtd ep rest (turn_step mtd ep st x))"
    by (rule Cons.IH [rotated])
  then show ?case by simp
qed

lemma format_turns_built:
  assumes "\<forall>c\<in>set cs. ta_start c \<noteq> None \<and> ta_end c \<noteq> None"
  shows "\<exists>out. format_turns i cs = Inr out \<and> length out = length cs
           \<and> (\<forall>c'\<in>set out. \<exists>c\<in>set cs. tc_text c' = ta_text c \<and> ta_start c = Some (tc_start c')
                  \<and> tc_speaker c' = ta_speaker c \<and> tc_speakers c' = [ta_speaker c])"
  using assms
proof (induction cs arbitrary: i)
  case Nil
  then show ?case by simp
next
  case (Cons c cs)
  from Cons.prems obtain s e where c: "ta_start c = Some s" "ta_end c = Some e" by auto
  from Cons.prems have "\<forall>c\<in>set cs. ta_start c \<noteq> None \<and> ta_end c \<noteq> None" by simp
  from Cons.IH [OF this, of "Suc i"] obtain out where out:
    "format_turns (Suc i) cs = Inr out" "length out = length cs"
    "\<forall>c'\<in>set out. \<exists>c\<in>set cs. tc_text c' = ta_text c \<and> ta_start c = Some (tc_start c')
                  \<and> tc_speaker c' = ta_speaker c \<and> tc_speakers c' = [ta_speaker c]"
    by blast
  show ?case using c out by (auto simp: format_turn_def)
qed

text \<open>
  C6. For every transcript and every \<open>max_turn_duration\<close>, \<open>chunk_by_speaker_turns\<close>
  returns, and every chunk it returns has a \<open>speakers\<close> list with exactly one element,
  the speaker label of the chunk. That label is the one active speaker of the chunk's
  run: the chunk is built from a run of consecutive segments of the transcript that all
  have this label, it starts where the first segment of the run starts, and its text is
  made of the texts of the run's segments, in order.
\<close>

theorem chunk_by_speaker_turns_singleton:
  "\<exists>cs. chunk_by_speaker_turns tr max_turn_duration = Inr cs
      \<and> (\<forall>c\<in>set cs. \<exists>l pre run post.
             tc_speakers c = [Some l] \<and> tc_speaker c = Some l
           \<and> (case tr_segments tr of None \<Rightarrow> [] | Some v \<Rightarrow> v) = pre @ run @ post
           \<and> run \<noteq> [] \<and> (\<forall>s\<in>set run. speaker_of s = l)
           \<and> tc_start c = seg_start (hd run) \<and> run_text run (tc_text c))"
proof -
  let ?segs = "case tr_segments tr of None \<Rightarrow> [] | Some v \<Rightarrow> v"
  let ?ep = "case tr_file tr of None \<Rightarrow> ''unknown'' | Some v \<Rightarrow> v"
  obtain chunks sp cur where
    l: "turn_loop max_turn_duration ?ep ?segs ([], None, initial_turn) = (chunks, sp, cur)"
    by (cases "turn_loop max_turn_duration ?ep ?segs ([], None, initial_turn)") auto
  have "turn_inv ?segs [] ([], None, initial_turn)"
    by (simp add: turn_inv_def initial_turn_def)
  moreover have "?segs = [] @ ?segs" by simp
  ultimately have "turn_inv ?segs ?segs (turn_loop max_turn_duration ?ep ?segs ([], None, initial_turn))"
    by (rule turn_loop_inv [rotated])
  with l have ch: "\<forall>c\<in>set chunks. \<exists>pre run post. ?segs = pre @ run @ post \<and> turn_built run c"
    and cu: "(ta_text cur = [] \<and> ta_start cur = None)
               \<or> (\<exists>pre run. ?segs = pre @ run \<and> turn_built run cur)"
    by (auto simp: turn_inv_def)
  let ?R = "if py_strip (ta_text cur) \<noteq> [] then chunks @ [cur] else chunks"
  have "\<exists>pre run post. ?segs = pre @ run @ post \<and> turn_built run cur"
    if "py_strip (ta_text cur) \<noteq> []"
  proof -
    from that have "ta_text cur \<noteq> []" using py_strip_Nil by auto
    with cu obtain pre run where "?segs = pre @ run @ []" "turn_built run cur" by auto
    then show ?thesis by blast
  qed
  with ch have built: "\<forall>c\<in>set ?R. \<exists>pre run post. ?segs = pre @ run @ post \<and> turn_built run c"
    by auto
  then have "\<forall>c\<in>set ?R. ta_start c \<noteq> None \<and> ta_end c \<noteq> None"
    by (auto simp: turn_built_def)
  from format_turns_built [OF this, of 0] obtain out where out:
    "format_turns 0 ?R = Inr out"
    "\<forall>c'\<in>set out. \<exists>c\<in>set ?R. tc_text c' = ta_text c \<and> ta_start c = Some (tc_start c')
                  \<and> tc_speaker c' = ta_speaker c \<and> tc_speakers c' = [ta_speaker c]"
    by blast
  have r: "chunk_by_speaker_turns tr max_turn_duration = Inr out"
    using l out(1) by (simp add: chunk_by_speaker_turns_def Let_def)
  have "\<exists>l pre run post.
             tc_speakers c' = [Some l] \<and> tc_speaker c' = Some l
           \<and> ?segs = pre @ run @ post
           \<and> run \<noteq> [] \<and> (\<forall>s\<in>set run. speaker_of s = l)
           \<and> tc_start c' = seg_start (hd run) \<and> run_text run (tc_text c')"
    if c': "c' \<in> set out" for c'
  proof -
    from out(2) c' obtain c where c: "c \<in> set ?R" "tc_text c' = ta_text c"
      "ta_start c = Some (tc_start c')" "tc_speaker c' = ta_speaker c"
      "tc_speakers c' = [ta_speaker c]"
      by blast
    from built c(1) obtain pre run post where p: "?segs = pre @ run @ post" "turn_built run c"
      by blast
    from p(2) obtain l where l: "ta_speaker c = Some l" "\<forall>s\<in>set run. speaker_of s = l"
      by (auto simp: turn_built_def list_all_iff split: option.splits)
    from p(2) have q: "run \<noteq> []" "ta_start c = Some (seg_start (hd run))"
      "run_text run (ta_text c)"
      by (auto simp: turn_built_def)
    from q(2) c(3) have "tc_start c' = seg_start (hd run)" by simp
    with c(2,4,5) l p(1) q(1,3) show ?thesis
      by (intro exI [of _ l] exI [of _ pre] exI [of _ run] exI [of _ post]) simp
  qed
  with r show ?thesis by blast
qed

text \<open>
  The theorem at a transcript of three segments with the speakers \<open>A\<close>, \<open>B\<close>, \<open>B\<close>: the
  change of speaker closes the first chunk, and the two segments of \<open>B\<close> make the second.
\<close>

theorem chunk_by_speaker_turns_singleton_witness:
  "\<exists>cs. chunk_by_speaker_turns
          \<lparr>tr_file = Some ''ep'',
           tr_segments = Some
             [\<lparr>seg_start = 0, seg_end = 5, seg_text = ''x'', seg_speaker = Some ''A''\<rparr>,
              \<lparr>seg_start = 5, seg_end = 10, seg_text = ''y'', seg_speaker = Some ''B''\<rparr>,
              \<lparr>seg_start = 10, seg_end = 15, seg_text = ''z'', seg_speaker = Some ''B''\<rparr>]\<rparr> 60 = Inr cs
      \<and> map (\<lambda>c. (tc_text c, tc_speakers c)) cs = [('' x'', [Some ''A'']), (''y z'', [Some ''B''])]
      \<and> (\<exists>l run. tc_speakers (last cs) = [Some l] \<and> run \<noteq> []
             \<and> (\<forall>s\<in>set run. speaker_of s = l) \<and> run_text run (tc_text (last cs)))"
proof -
  let ?tr = "\<lparr>tr_file = Some ''ep'',
           tr_segments = Some
             [\<lparr>seg_start = 0, seg_end = 5, seg_text = ''x'', seg_speaker = Some ''A''\<rparr>,
              \<lparr>seg_start = 5, seg_end = 10, seg_text = ''y'', seg_speaker = Some ''B''\<rparr>,
              \<lparr>seg_start = 10, seg_end = 15, seg_text = ''z'', seg_speaker = Some ''B''\<rparr>]\<rparr>"
  have e: "map_sum id (map (\<lambda>c. (tc_text c, tc_speakers c))) (chunk_by_speaker_turns ?tr 60)
             = Inr [('' x'', [Some ''A'']), (''y z'', [Some ''B''])]"
    by (simp add: turn_eval)
  from chunk_by_speaker_turns_singleton [of ?tr 60] obtain cs where
    cs: "chunk_by_speaker_turns ?tr 60 = Inr cs"
    and one: "\<forall>c\<in>set cs. \<exists>l pre run post.
             tc_speakers c = [Some l] \<and> tc_speaker c = Some l
           \<and> (case tr_segments ?tr of None \<Rightarrow> [] | Some v \<Rightarrow> v) = pre @ run @ post
           \<and> run \<noteq> [] \<and> (\<forall>s\<in>set run. speaker_of s = l)
           \<and> tc_start c = seg_start (hd run) \<and> run_text run (tc_text c)"
    by blast
  from e cs have m: "map (\<lambda>c. (tc_text c, tc_speakers c)) cs
      = [('' x'', [Some ''A'']), (''y z'', [Some ''B''])]" by simp
  then have "cs \<noteq> []" by auto
  then have "last cs \<in> set cs" by simp
  with one have "\<exists>l run. tc_speakers (last cs) = [Some l] \<and> run \<noteq> []
             \<and> (\<forall>s\<in>set run. speaker_of s = l) \<and> run_text run (tc_text (last cs))"
    by blast
  with cs m show ?thesis by (intro exI [of _ cs] conjI)
qed

end
